theory Spec2Isabelle
  imports Complex_Main "HOL-Library.Word" "HOL-Library.Signed_Division" "HOL-Library.Log_Nat"
begin

unbundle bit_operations_syntax

section \<open>Package dsp: data model\<close>

text \<open>
  \<^verbatim>\<open>time.Duration\<close> is Go's \<^verbatim>\<open>int64\<close> count of nanoseconds: a 64-bit word, added with
  wrap-around and compared as a signed number (\<open>\<le>s\<close>, \<open><s\<close>).
\<close>

type_synonym Duration = "64 word"

text \<open>
  A \<^verbatim>\<open>float64\<close> is its IEEE-754 binary64 bit pattern; \<^verbatim>\<open>math.Float64bits\<close> and
  \<^verbatim>\<open>math.Float64frombits\<close> are the two directions of that reading.
\<close>

datatype float64 = Float64frombits (Float64bits: "64 word")

text \<open>
  The ways an evaluation can abort: the run-time panic of an integer \<^verbatim>\<open>%\<close> whose divisor
  is zero, and the explicit \<^verbatim>\<open>panic("unreachable")\<close> at the end of the closure built by
  \<^verbatim>\<open>Sequence\<close>.
\<close>

datatype panic = IntegerDivideByZero | Unreachable

text \<open>
  A \<^verbatim>\<open>Signal\<close> is anything with a method \<^verbatim>\<open>At\<close>; every signal of the package is a
  \<^verbatim>\<open>SignalFunc\<close>, a closure from a time offset to an amplitude. The closure either
  returns an amplitude (\<open>Inr\<close>) or panics (\<open>Inl\<close>).
\<close>

type_synonym Signal = "Duration \<Rightarrow> panic + float64"

definition At :: "Signal \<Rightarrow> Duration \<Rightarrow> panic + float64" where
  "At s x = s x"

definition Constant :: "float64 \<Rightarrow> Signal" where
  "Constant v = (\<lambda>x. Inr v)"

record FiniteSignal =
  Signal :: Signal
  Duration :: Duration

definition F :: "Duration \<Rightarrow> Signal \<Rightarrow> FiniteSignal" where
  "F d s = \<lparr>Signal = s, Duration = d\<rparr>"

section \<open>Sequence\<close>

text \<open>The first loop of \<^verbatim>\<open>Sequence\<close>: \<^verbatim>\<open>totalDuration += s.Duration\<close> over the segments.\<close>

fun sum_durations :: "FiniteSignal list \<Rightarrow> Duration \<Rightarrow> Duration" where
  "sum_durations [] acc = acc"
| "sum_durations (s # ss) acc = sum_durations ss (acc + Duration s)"

definition totalDuration :: "FiniteSignal list \<Rightarrow> Duration" where
  "totalDuration signals = sum_durations signals 0"

text \<open>
  Go's \<^verbatim>\<open>x % y\<close> on \<^verbatim>\<open>int64\<close>: the remainder of the division truncated towards zero
  (the sign of the dividend), a run-time panic when \<open>y\<close> is zero.
\<close>

definition go_rem :: "Duration \<Rightarrow> Duration \<Rightarrow> panic + Duration" where
  "go_rem x y = (if y = 0 then Inl IntegerDivideByZero
                 else Inr (word_of_int (sint x smod sint y)))"

text \<open>
  The loop of the closure: \<open>i\<close> is the start of the current segment; the loop returns at
  the first segment with \<^verbatim>\<open>x >= i && x < i+s.Duration\<close>, evaluating its signal at \<open>x\<close>,
  and falls through to \<^verbatim>\<open>panic("unreachable")\<close> when no segment matches.
\<close>

fun walk :: "FiniteSignal list \<Rightarrow> Duration \<Rightarrow> Duration \<Rightarrow> panic + float64" where
  "walk [] x i = Inl Unreachable"
| "walk (s # ss) x i =
     (if i \<le>s x \<and> x <s i + Duration s then At (Signal s) x
      else walk ss x (i + Duration s))"

definition Sequence :: "FiniteSignal list \<Rightarrow> Signal" where
  "Sequence signals =
     (\<lambda>x. case go_rem x (totalDuration signals) of
             Inl p \<Rightarrow> Inl p
           | Inr x' \<Rightarrow> walk signals x' 0)"

text \<open>
  Whether the loop of the closure runs over all the segments without returning, that is,
  whether control reaches \<^verbatim>\<open>panic("unreachable")\<close>: the same loop as \<open>walk\<close>, with the
  exit taken recorded in place of the value returned.
\<close>

fun falls_through :: "FiniteSignal list \<Rightarrow> Duration \<Rightarrow> Duration \<Rightarrow> bool" where
  "falls_through [] x i = True"
| "falls_through (s # ss) x i =
     (if i \<le>s x \<and> x <s i + Duration s then False
      else falls_through ss x (i + Duration s))"


text \<open>
  The time offset reduced into one period of length \<open>D\<close>: the mathematical \<open>t mod D\<close>,
  as a \<^verbatim>\<open>time.Duration\<close>.
\<close>

definition time_in_period :: "Duration \<Rightarrow> Duration \<Rightarrow> Duration" where
  "time_in_period t D = word_of_int (sint t mod sint D)"

section \<open>EncodePCM\<close>

type_synonym byte = "8 word"

text \<open>
  \<^verbatim>\<open>binary.BigEndian.PutUint64(buf[:], v)\<close>: the eight bytes of \<open>v\<close>, the most significant
  first (\<^verbatim>\<open>b[0] = byte(v >> 56)\<close>, ..., \<^verbatim>\<open>b[7] = byte(v)\<close>).
\<close>

definition PutUint64 :: "64 word \<Rightarrow> byte list" where
  "PutUint64 v = [ucast (drop_bit 56 v), ucast (drop_bit 48 v), ucast (drop_bit 40 v),
                  ucast (drop_bit 32 v), ucast (drop_bit 24 v), ucast (drop_bit 16 v),
                  ucast (drop_bit 8 v), ucast v]"

text \<open>The loop of \<^verbatim>\<open>EncodePCM\<close>: each frame's eight bytes are appended to \<open>b\<close>.\<close>

fun EncodePCM_loop :: "float64 list \<Rightarrow> byte list \<Rightarrow> byte list" where
  "EncodePCM_loop [] b = b"
| "EncodePCM_loop (pulse # frames) b = EncodePCM_loop frames (b @ PutUint64 (Float64bits pulse))"

definition EncodePCM :: "float64 list \<Rightarrow> byte list" where
  "EncodePCM frames = EncodePCM_loop frames []"

text \<open>
  The reading the round-trip property speaks of, which the package itself does not contain:
  \<^verbatim>\<open>binary.BigEndian.Uint64\<close> on eight bytes, and a decoder that takes a buffer eight bytes
  at a time, in order, each group read as a big-endian \<^verbatim>\<open>float64\<close>.
\<close>

definition Uint64 :: "byte list \<Rightarrow> 64 word" where
  "Uint64 b = ucast (b ! 7) OR push_bit 8 (ucast (b ! 6)) OR push_bit 16 (ucast (b ! 5))
              OR push_bit 24 (ucast (b ! 4)) OR push_bit 32 (ucast (b ! 3))
              OR push_bit 40 (ucast (b ! 2)) OR push_bit 48 (ucast (b ! 1))
              OR push_bit 56 (ucast (b ! 0))"

fun DecodePCM :: "byte list \<Rightarrow> float64 list" where
  "DecodePCM b = (if length b < 8 then []
                  else Float64frombits (Uint64 (take 8 b)) # DecodePCM (drop 8 b))"

section \<open>IEEE-754 binary64 arithmetic\<close>

text \<open>
  Go's \<^verbatim>\<open>float64\<close> arithmetic is IEEE-754 binary64 with rounding to nearest, ties to even.
  A bit pattern has a sign bit, an 11-bit biased exponent and a 52-bit fraction.
\<close>

definition f_sign :: "float64 \<Rightarrow> bool" where
  "f_sign f = (2 ^ 63 \<le> unat (Float64bits f))"

definition f_exp :: "float64 \<Rightarrow> nat" where
  "f_exp f = unat (Float64bits f) div 2 ^ 52 mod 2 ^ 11"

definition f_frac :: "float64 \<Rightarrow> nat" where
  "f_frac f = unat (Float64bits f) mod 2 ^ 52"

definition is_NaN :: "float64 \<Rightarrow> bool" where
  "is_NaN f = (f_exp f = 2047 \<and> f_frac f \<noteq> 0)"

definition is_Inf :: "float64 \<Rightarrow> bool" where
  "is_Inf f = (f_exp f = 2047 \<and> f_frac f = 0)"

definition is_zero :: "float64 \<Rightarrow> bool" where
  "is_zero f = (f_exp f = 0 \<and> f_frac f = 0)"

definition is_finite :: "float64 \<Rightarrow> bool" where
  "is_finite f = (f_exp f < 2047)"

text \<open>
  The number a finite pattern stands for: \<open>\<plusminus> frac * 2^-1074\<close> for exponent field 0 (zeros
  and subnormals), \<open>\<plusminus> (2^52 + frac) * 2^(exp - 1075)\<close> otherwise.
\<close>

definition valof :: "float64 \<Rightarrow> rat" where
  "valof f = (if f_sign f then - 1 else 1) *
     (if f_exp f = 0 then of_nat (f_frac f) * 2 powi (- 1074)
      else of_nat (2 ^ 52 + f_frac f) * 2 powi (int (f_exp f) - 1075))"

definition mk_zero :: "bool \<Rightarrow> float64" where
  "mk_zero s = Float64frombits (if s then 0x8000000000000000 else 0)"

definition mk_inf :: "bool \<Rightarrow> float64" where
  "mk_inf s = Float64frombits (if s then 0xFFF0000000000000 else 0x7FF0000000000000)"

text \<open>
  The NaN an invalid operation produces. Its sign and payload depend on the processor;
  this is one quiet NaN, and nothing below depends on which.
\<close>

definition qNaN :: float64 where
  "qNaN = Float64frombits 0x7FF8000000000000"

text \<open>\<open>flog2 x\<close> is \<open>\<lfloor>log\<^sub>2 x\<rfloor>\<close> for a positive rational \<open>x\<close>.\<close>

definition flog2 :: "rat \<Rightarrow> int" where
  "flog2 x = (let (n, d) = quotient_of x; l = bitlen n - bitlen d
              in if 2 powi l \<le> x then l else l - 1)"

text \<open>
  Rounding a positive rational \<open>x\<close> to the nearest binary64 of sign \<open>s\<close>, ties to even: the
  exponent \<open>e\<close> of the last place (never below that of the subnormals), the significand
  \<open>x / 2^e\<close> rounded to an integer \<open>m'\<close>, and the fields \<open>(e + 1074) * 2^52 + m'\<close>, in which a
  significand that rounds up to \<open>2^53\<close> carries into the exponent; a result beyond the
  largest finite number is the infinity.
\<close>

definition round_to_float64 :: "bool \<Rightarrow> rat \<Rightarrow> float64" where
  "round_to_float64 s x =
     (let e = max (flog2 x - 52) (- 1074);
          y = x / 2 powi e;
          m = \<lfloor>y\<rfloor>;
          r = y - of_int m;
          m' = (if 1 / 2 < r \<or> (r = 1 / 2 \<and> odd m) then m + 1 else m);
          b = min ((e + 1074) * 2 ^ 52 + m') (2047 * 2 ^ 52)
      in Float64frombits (word_of_int ((if s then 2 ^ 63 else 0) + b)))"

text \<open>The operators \<^verbatim>\<open>+\<close>, \<^verbatim>\<open>*\<close>, \<^verbatim>\<open>/\<close> and \<^verbatim>\<open><\<close> on \<^verbatim>\<open>float64\<close>.\<close>

definition fadd :: "float64 \<Rightarrow> float64 \<Rightarrow> float64" where
  "fadd a b =
     (if is_NaN a \<or> is_NaN b then qNaN
      else if is_Inf a then (if is_Inf b \<and> f_sign a \<noteq> f_sign b then qNaN else a)
      else if is_Inf b then b
      else let v = valof a + valof b in
        if v = 0 then mk_zero (is_zero a \<and> is_zero b \<and> f_sign a \<and> f_sign b)
        else round_to_float64 (v < 0) \<bar>v\<bar>)"

definition fmul :: "float64 \<Rightarrow> float64 \<Rightarrow> float64" where
  "fmul a b =
     (if is_NaN a \<or> is_NaN b then qNaN
      else if is_Inf a \<or> is_Inf b then
        (if is_zero a \<or> is_zero b then qNaN else mk_inf (f_sign a \<noteq> f_sign b))
      else if is_zero a \<or> is_zero b then mk_zero (f_sign a \<noteq> f_sign b)
      else round_to_float64 (f_sign a \<noteq> f_sign b) \<bar>valof a * valof b\<bar>)"

definition fdiv :: "float64 \<Rightarrow> float64 \<Rightarrow> float64" where
  "fdiv a b =
     (if is_NaN a \<or> is_NaN b then qNaN
      else if is_Inf a then (if is_Inf b then qNaN else mk_inf (f_sign a \<noteq> f_sign b))
      else if is_Inf b then mk_zero (f_sign a \<noteq> f_sign b)
      else if is_zero b then (if is_zero a then qNaN else mk_inf (f_sign a \<noteq> f_sign b))
      else if is_zero a then mk_zero (f_sign a \<noteq> f_sign b)
      else round_to_float64 (f_sign a \<noteq> f_sign b) \<bar>valof a / valof b\<bar>)"

definition flt :: "float64 \<Rightarrow> float64 \<Rightarrow> bool" where
  "flt a b =
     (if is_NaN a \<or> is_NaN b then False
      else if is_Inf a then f_sign a \<and> \<not> (is_Inf b \<and> f_sign b)
      else if is_Inf b then \<not> f_sign b
      else valof a < valof b)"

text \<open>
  The conversion \<^verbatim>\<open>float64(i)\<close> of an \<^verbatim>\<open>int64\<close> (a \<^verbatim>\<open>time.Duration\<close>, or an \<^verbatim>\<open>int\<close> on a
  64-bit platform): the nearest binary64.
\<close>

definition float64_of_int64 :: "64 word \<Rightarrow> float64" where
  "float64_of_int64 i =
     (if sint i = 0 then mk_zero False
      else round_to_float64 (sint i < 0) (of_int \<bar>sint i\<bar>))"

text \<open>
  The conversion \<^verbatim>\<open>time.Duration(f)\<close> of a \<^verbatim>\<open>float64\<close>: the fraction is discarded
  (truncation towards zero). For a NaN, an infinity or a value outside \<^verbatim>\<open>int64\<close> the
  language leaves the result to the implementation: \<open>None\<close>.
\<close>

definition int64_of_float64 :: "float64 \<Rightarrow> 64 word option" where
  "int64_of_float64 f =
     (if \<not> is_finite f then None
      else let v = valof f; n = (if 0 \<le> v then \<lfloor>v\<rfloor> else \<lceil>v\<rceil>) in
        if - (2 ^ 63) \<le> n \<and> n < 2 ^ 63 then Some (word_of_int n) else None)"

section \<open>Combine, Amplify, Blank\<close>

text \<open>
  The loop of the closure built by \<^verbatim>\<open>Combine\<close>: \<^verbatim>\<open>y += s.At(x)\<close> over the signals, from
  \<open>y = 0\<close>; a signal that panics ends the evaluation.
\<close>

fun Combine_loop :: "Signal list \<Rightarrow> Duration \<Rightarrow> float64 \<Rightarrow> panic + float64" where
  "Combine_loop [] x y = Inr y"
| "Combine_loop (s # ss) x y =
     (case At s x of Inl p \<Rightarrow> Inl p | Inr v \<Rightarrow> Combine_loop ss x (fadd y v))"

definition Combine :: "Signal list \<Rightarrow> Signal" where
  "Combine signals =
     (\<lambda>x. case Combine_loop signals x (mk_zero False) of
             Inl p \<Rightarrow> Inl p
           | Inr y \<Rightarrow> Inr (fdiv y (float64_of_int64 (word_of_nat (length signals)))))"

definition Amplify :: "Signal \<Rightarrow> Signal \<Rightarrow> Signal" where
  "Amplify v by =
     (\<lambda>x. case At v x of
             Inl p \<Rightarrow> Inl p
           | Inr a \<Rightarrow> (case At by x of Inl p \<Rightarrow> Inl p | Inr b \<Rightarrow> Inr (fmul a b)))"

definition Blank :: "Duration \<Rightarrow> FiniteSignal" where
  "Blank d = \<lparr>Signal = Constant (mk_zero False), Duration = d\<rparr>"

section \<open>Sample\<close>

text \<open>
  What a call of \<^verbatim>\<open>Sample\<close> can come to: the frames it returns, the panic of a signal it
  evaluates, or a conversion \<^verbatim>\<open>time.Duration(i)\<close> whose result the language leaves to the
  implementation. A call whose loop never ends has no outcome at all (\<open>None\<close>).
\<close>

datatype sample_outcome = Frames "float64 list" | Panics panic | ImplementationDependent

text \<open>
  The loop \<^verbatim>\<open>for i := float64(from); i < float64(from+to); i += step\<close>, with its body
  \<^verbatim>\<open>frames = append(frames, s.At(time.Duration(i)))\<close>.
\<close>

partial_function (option) Sample_loop ::
  "Signal \<Rightarrow> float64 \<Rightarrow> float64 \<Rightarrow> float64 \<Rightarrow> float64 list \<Rightarrow> sample_outcome option" where
  "Sample_loop s step limit i frames =
     (if flt i limit then
        (case int64_of_float64 i of
           None \<Rightarrow> Some ImplementationDependent
         | Some x \<Rightarrow>
             (case At s x of
                Inl p \<Rightarrow> Some (Panics p)
              | Inr val \<Rightarrow> Sample_loop s step limit (fadd i step) (frames @ [val])))
      else Some (Frames frames))"

declare Sample_loop.simps [code]

text \<open>
  \<^verbatim>\<open>Sample(s, rate, from, to)\<close>; \<^verbatim>\<open>time.Second\<close> is \<open>10^9\<close> nanoseconds, \<open>rate\<close> an \<^verbatim>\<open>int\<close>
  (64 bits), and \<^verbatim>\<open>from+to\<close> an \<^verbatim>\<open>int64\<close> addition.
\<close>

definition Sample :: "Signal \<Rightarrow> 64 word \<Rightarrow> Duration \<Rightarrow> Duration \<Rightarrow> sample_outcome option" where
  "Sample s rate from to =
     Sample_loop s (fdiv (float64_of_int64 1000000000) (float64_of_int64 rate))
       (float64_of_int64 (from + to)) (float64_of_int64 from) []"

section \<open>Facts about the segment walk\<close>

declare At_def [simp]

lemma sum_durations_acc: "sum_durations ss acc = acc + sum_durations ss 0"
proof (induction ss arbitrary: acc)
  case Nil
  show ?case by simp
next
  case (Cons s ss)
  have "sum_durations (s # ss) acc = (acc + Duration s) + sum_durations ss 0"
    using Cons.IH [of "acc + Duration s"] by simp
  also have "\<dots> = acc + sum_durations (s # ss) 0"
    using Cons.IH [of "0 + Duration s"] by (simp add: add.assoc)
  finally show ?case .
qed

lemma walk_selects:
  assumes "i \<le>s x" and "x <s sum_durations ss i"
  shows "\<exists>k<length ss.
           sum_durations (take k ss) i \<le>s x
         \<and> x <s sum_durations (take k ss) i + Duration (ss ! k)
         \<and> (\<forall>j<k. \<not> (sum_durations (take j ss) i \<le>s x
                     \<and> x <s sum_durations (take j ss) i + Duration (ss ! j)))
         \<and> walk ss x i = At (Signal (ss ! k)) x
         \<and> \<not> falls_through ss x i"
  using assms
proof (induction ss arbitrary: i)
  case Nil
  then show ?case by (simp add: word_sless_alt word_sle_eq)
next
  case (Cons s ss)
  show ?case
  proof (cases "x <s i + Duration s")
    case True
    with Cons.prems(1) have "sum_durations (take 0 (s # ss)) i \<le>s x
         \<and> x <s sum_durations (take 0 (s # ss)) i + Duration ((s # ss) ! 0)
         \<and> (\<forall>j<0::nat. \<not> (sum_durations (take j (s # ss)) i \<le>s x
                     \<and> x <s sum_durations (take j (s # ss)) i + Duration ((s # ss) ! j)))
         \<and> walk (s # ss) x i = At (Signal ((s # ss) ! 0)) x
         \<and> \<not> falls_through (s # ss) x i"
      by simp
    then show ?thesis by blast
  next
    case False
    then have le: "i + Duration s \<le>s x"
      by (simp add: word_sless_alt word_sle_eq)
    from Cons.prems(2) have lt: "x <s sum_durations ss (i + Duration s)" by simp
    from Cons.IH [OF le lt] obtain k where k: "k < length ss"
      "sum_durations (take k ss) (i + Duration s) \<le>s x"
      "x <s sum_durations (take k ss) (i + Duration s) + Duration (ss ! k)"
      "\<forall>j<k. \<not> (sum_durations (take j ss) (i + Duration s) \<le>s x
                     \<and> x <s sum_durations (take j ss) (i + Duration s) + Duration (ss ! j))"
      "walk ss x (i + Duration s) = At (Signal (ss ! k)) x"
      "\<not> falls_through ss x (i + Duration s)"
      by blast
    have earlier: "\<not> (sum_durations (take j (s # ss)) i \<le>s x
                     \<and> x <s sum_durations (take j (s # ss)) i + Duration ((s # ss) ! j))"
      if "j < Suc k" for j
    proof (cases j)
      case 0
      with False show ?thesis by simp
    next
      case (Suc j')
      with that k(4) show ?thesis by simp
    qed
    have "Suc k < length (s # ss)
         \<and> sum_durations (take (Suc k) (s # ss)) i \<le>s x
         \<and> x <s sum_durations (take (Suc k) (s # ss)) i + Duration ((s # ss) ! Suc k)
         \<and> (\<forall>j<Suc k. \<not> (sum_durations (take j (s # ss)) i \<le>s x
                     \<and> x <s sum_durations (take j (s # ss)) i + Duration ((s # ss) ! j)))
         \<and> walk (s # ss) x i = At (Signal ((s # ss) ! Suc k)) x
         \<and> \<not> falls_through (s # ss) x i"
      using k False earlier by simp
    then show ?thesis by blast
  qed
qed

lemma falls_through_walk: "falls_through ss x i \<Longrightarrow> walk ss x i = Inl Unreachable"
  by (induction ss arbitrary: i) (auto split: if_splits)


lemma sint_time_in_period:
  assumes "0 <s D"
  shows "sint (time_in_period t D) = sint t mod sint D"
proof -
  from assms have D: "0 < sint D" by (simp add: word_sless_alt)
  have "sint D < 2 ^ 63" using sint_lt [of D] by simp
  with D have "- (2 ^ 63) \<le> sint t mod sint D" "sint t mod sint D < 2 ^ 63"
    using pos_mod_sign [of "sint D" "sint t"] pos_mod_bound [of "sint D" "sint t"]
    by linarith+
  then show ?thesis
    by (simp add: time_in_period_def sint_sbintrunc' signed_take_bit_int_eq_self)
qed

lemma time_in_period_range:
  assumes "0 <s D"
  shows "0 \<le>s time_in_period t D" and "time_in_period t D <s D"
  using assms sint_time_in_period [OF assms, of t]
  by (simp_all add: word_sless_alt word_sle_eq)

text \<open>For a non-negative dividend and a positive divisor, Go's \<^verbatim>\<open>%\<close> is \<open>mod\<close>.\<close>

lemma go_rem_nonneg:
  assumes "0 <s D" and "0 \<le>s t"
  shows "go_rem t D = Inr (time_in_period t D)"
proof -
  from assms have "sint D > 0" "sint t \<ge> 0" by (simp_all add: word_sless_alt word_sle_eq)
  then have "sint t smod sint D = sint t mod sint D"
    by (simp add: smod_int_alt_def sgn_if)
  moreover from \<open>sint D > 0\<close> have "D \<noteq> 0" by auto
  ultimately show ?thesis by (simp add: go_rem_def time_in_period_def)
qed


lemma Sequence_walks:
  assumes "0 <s totalDuration segs" and "0 \<le>s t"
  shows "Sequence segs t = walk segs (time_in_period t (totalDuration segs)) 0"
  by (simp add: Sequence_def go_rem_nonneg [OF assms])

section \<open>Sequence: the claims\<close>



text \<open>
  Whenever the total the code accumulates is positive and \<open>t \<ge> 0\<close>, the loop returns from
  inside a segment.
\<close>

lemma Sequence_returns_from_segment:
  assumes "0 <s totalDuration segs" and "0 \<le>s t"
  shows "\<not> falls_through segs (time_in_period t (totalDuration segs)) 0
       \<and> (\<exists>s\<in>set segs. Sequence segs t = At (Signal s) (time_in_period t (totalDuration segs)))"
proof -
  let ?x = "time_in_period t (totalDuration segs)"
  have 1: "0 \<le>s ?x" by (rule time_in_period_range(1) [OF assms(1)])
  have 2: "?x <s sum_durations segs 0"
    using time_in_period_range(2) [OF assms(1), of t] by (simp add: totalDuration_def)
  from walk_selects [OF 1 2] obtain k where k: "k < length segs"
    "walk segs ?x 0 = At (Signal (segs ! k)) ?x" "\<not> falls_through segs ?x 0"
    by blast
  from k(1) have "segs ! k \<in> set segs" by simp
  with k(2,3) Sequence_walks [OF assms] show ?thesis by metis
qed

text \<open>
  Non-negative durations whose sum stays below \<open>2^63\<close> are accumulated without wrap-around:
  the \<^verbatim>\<open>int64\<close> total is the sum.
\<close>

lemma sint_sum_durations:
  assumes "\<forall>s\<in>set ss. 0 \<le> sint (Duration s)" and "0 \<le> sint acc"
    and "sint acc + (\<Sum>s\<leftarrow>ss. sint (Duration s)) < 2 ^ 63"
  shows "sint (sum_durations ss acc) = sint acc + (\<Sum>s\<leftarrow>ss. sint (Duration s))"
  using assms
proof (induction ss arbitrary: acc)
  case Nil
  then show ?case by simp
next
  case (Cons s ss)
  have d: "0 \<le> sint (Duration s)" using Cons.prems(1) by simp
  have rest: "0 \<le> (\<Sum>s\<leftarrow>ss. sint (Duration s))"
    using Cons.prems(1) by (intro sum_list_nonneg) auto
  have lt: "sint acc + sint (Duration s) < 2 ^ 63"
    using Cons.prems(3) rest by simp
  have step: "sint (acc + Duration s) = sint acc + sint (Duration s)"
    using lt d Cons.prems(2) by (simp add: sint_word_add signed_take_bit_int_eq_self)
  have "sint (sum_durations ss (acc + Duration s))
        = sint (acc + Duration s) + (\<Sum>s\<leftarrow>ss. sint (Duration s))"
  proof (rule Cons.IH)
    show "\<forall>s\<in>set ss. 0 \<le> sint (Duration s)" using Cons.prems(1) by simp
    show "0 \<le> sint (acc + Duration s)" unfolding step using d Cons.prems(2) by simp
    show "sint (acc + Duration s) + (\<Sum>s\<leftarrow>ss. sint (Duration s)) < 2 ^ 63"
      unfolding step using Cons.prems(3) by simp
  qed
  then show ?case by (simp add: step)
qed

text \<open>
  Claim C10, as stated, fails where the accumulation of the durations overflows \<^verbatim>\<open>int64\<close>:
  the arithmetic is integer arithmetic, but it wraps. Two segments of \<open>2^62\<close> ns each have
  non-negative durations with the positive sum \<open>2^63\<close>; the total the code computes is
  \<open>-2^63\<close>, the time offset \<open>t = 2^62 \<ge> 0\<close> is reduced to itself, no segment's interval
  contains it, and the loop falls through to \<^verbatim>\<open>panic("unreachable")\<close>.
\<close>

theorem Sequence_never_unreachable_counterexample:
  "(0 :: Duration) \<le>s 4611686018427387904
   \<and> 0 < sint (4611686018427387904 :: Duration) + sint (4611686018427387904 :: Duration)
   \<and> go_rem 4611686018427387904
        (totalDuration [F 4611686018427387904 (Constant (Float64frombits 0)),
                        F 4611686018427387904 (Constant (Float64frombits 1))])
       = Inr 4611686018427387904
   \<and> falls_through [F 4611686018427387904 (Constant (Float64frombits 0)),
                      F 4611686018427387904 (Constant (Float64frombits 1))] 4611686018427387904 0
   \<and> Sequence [F 4611686018427387904 (Constant (Float64frombits 0)),
                F 4611686018427387904 (Constant (Float64frombits 1))] 4611686018427387904
       = Inl Unreachable"
proof -
  let ?segs = "[F 4611686018427387904 (Constant (Float64frombits 0)),
                F 4611686018427387904 (Constant (Float64frombits 1))]"
  have tot: "totalDuration ?segs = 9223372036854775808"
    by (simp add: totalDuration_def F_def)
  have rem: "go_rem 4611686018427387904 9223372036854775808 = Inr 4611686018427387904"
    by (simp add: go_rem_def smod_int_alt_def)
  have ft: "falls_through ?segs 4611686018427387904 0"
    by (simp add: F_def word_sless_alt word_sle_eq)
  have "Sequence ?segs 4611686018427387904 = walk ?segs 4611686018427387904 0"
    unfolding Sequence_def tot rem by simp
  also have "\<dots> = Inl Unreachable"
    using ft by (rule falls_through_walk)
  finally have sq: "Sequence ?segs 4611686018427387904 = Inl Unreachable" .
  have nn: "(0 :: Duration) \<le>s 4611686018427387904" by (simp add: word_sle_eq)
  have pos: "0 < sint (4611686018427387904 :: Duration) + sint (4611686018427387904 :: Duration)"
    by simp
  from nn pos rem ft sq show ?thesis unfolding tot by simp
qed

text \<open>
  Claim C10, amended. For every list of segments with non-negative durations whose sum is
  positive and does not overflow \<^verbatim>\<open>int64\<close> (a sum below \<open>2^63\<close> ns), and every time offset
  \<open>t \<ge> 0\<close>, the segment-selection walk inside the signal returned by \<^verbatim>\<open>Sequence\<close> always
  finds a containing segment and returns from inside the loop: the fall-through to
  \<^verbatim>\<open>panic("unreachable")\<close> is not reached, and the value of the sequence is the value of one
  of its segments' signals at the time in the period.
\<close>

theorem Sequence_never_unreachable:
  assumes "\<forall>s\<in>set segs. 0 \<le>s Duration s"
    and "0 < (\<Sum>s\<leftarrow>segs. sint (Duration s))"
    and "(\<Sum>s\<leftarrow>segs. sint (Duration s)) < 2 ^ 63"
    and "0 \<le>s t"
  shows "sint (totalDuration segs) = (\<Sum>s\<leftarrow>segs. sint (Duration s))
       \<and> \<not> falls_through segs (time_in_period t (totalDuration segs)) 0
       \<and> (\<exists>s\<in>set segs. Sequence segs t = At (Signal s) (time_in_period t (totalDuration segs)))"
proof -
  have nn: "\<forall>s\<in>set segs. 0 \<le> sint (Duration s)"
    using assms(1) by (simp add: word_sle_eq)
  have tot: "sint (totalDuration segs) = (\<Sum>s\<leftarrow>segs. sint (Duration s))"
    unfolding totalDuration_def
    using sint_sum_durations [OF nn, of 0] assms(3) by simp
  with assms(2) have pos: "0 <s totalDuration segs" by (simp add: word_sless_alt)
  from tot Sequence_returns_from_segment [OF pos assms(4)] show ?thesis by blast
qed

text \<open>
  An instance with a segment of duration zero in the middle: at \<open>t = 12\<close> the time in the
  period of 5 ns is 2, the start of the third segment.
\<close>

theorem Sequence_never_unreachable_witness:
  "list_all (\<lambda>s. 0 \<le>s Duration s)
     [F 2 (Constant (Float64frombits 0)), F 0 (Constant (Float64frombits 1)),
      F 3 (Constant (Float64frombits 2))]
   \<and> (\<Sum>s\<leftarrow>[F 2 (Constant (Float64frombits 0)), F 0 (Constant (Float64frombits 1)),
             F 3 (Constant (Float64frombits 2))]. sint (Duration s)) = 5
   \<and> (0::Duration) \<le>s 12
   \<and> \<not> falls_through [F 2 (Constant (Float64frombits 0)), F 0 (Constant (Float64frombits 1)),
                        F 3 (Constant (Float64frombits 2))] 2 0
   \<and> Sequence [F 2 (Constant (Float64frombits 0)), F 0 (Constant (Float64frombits 1)),
                F 3 (Constant (Float64frombits 2))] 12 = Inr (Float64frombits 2)"
proof -
  let ?segs = "[F 2 (Constant (Float64frombits 0)), F 0 (Constant (Float64frombits 1)),
                F 3 (Constant (Float64frombits 2))]"
  have h1: "\<forall>s\<in>set ?segs. 0 \<le>s Duration s"
    by (simp add: F_def word_sle_eq)
  have sum: "(\<Sum>s\<leftarrow>?segs. sint (Duration s)) = 5"
    by (simp add: F_def)
  have h2: "0 < (\<Sum>s\<leftarrow>?segs. sint (Duration s))" and h3: "(\<Sum>s\<leftarrow>?segs. sint (Duration s)) < 2 ^ 63"
    unfolding sum by simp_all
  have h4: "(0::Duration) \<le>s 12"
    by (simp add: word_sle_eq)
  have tot: "totalDuration ?segs = 5" by (simp add: totalDuration_def F_def)
  have t': "time_in_period 12 (totalDuration ?segs) = 2"
    unfolding tot by (simp add: time_in_period_def)
  have ev: "Sequence ?segs 12 = Inr (Float64frombits 2)"
    unfolding Sequence_def tot
    by (simp add: go_rem_def smod_int_alt_def) (simp add: F_def Constant_def word_sless_alt word_sle_eq)
  have la: "list_all (\<lambda>s. 0 \<le>s Duration s) ?segs"
    using h1 by (simp add: list_all_iff)
  from Sequence_never_unreachable [OF h1 h2 h3 h4] have "\<not> falls_through ?segs 2 0"
    unfolding t' by blast
  with la sum h4 ev show ?thesis by simp
qed

text \<open>
  Claim C6. For every list of segments with total duration \<open>D > 0\<close> and every time offset
  \<open>t \<ge> 0\<close> for which \<open>t + D\<close> is again a time offset (a \<^verbatim>\<open>time.Duration\<close>, so below
  \<open>2^63\<close> nanoseconds), the signal returned by \<^verbatim>\<open>Sequence\<close> has the same outcome at
  \<open>t + D\<close> as at \<open>t\<close>.
\<close>

theorem Sequence_periodic:
  assumes "0 <s totalDuration segs" and "0 \<le>s t"
    and "sint t + sint (totalDuration segs) < 2 ^ 63"
  shows "Sequence segs (t + totalDuration segs) = Sequence segs t"
proof -
  let ?D = "totalDuration segs"
  from assms have D: "0 < sint ?D" and t: "0 \<le> sint t"
    by (simp_all add: word_sless_alt word_sle_eq)
  have s: "sint (t + ?D) = sint t + sint ?D"
    using assms(3) D t by (simp add: sint_word_add signed_take_bit_int_eq_self)
  with D t have nonneg: "0 \<le>s t + ?D" by (simp add: word_sle_eq)
  have "time_in_period (t + ?D) ?D = time_in_period t ?D"
    by (simp add: time_in_period_def s)
  then show ?thesis
    by (simp add: Sequence_def go_rem_nonneg [OF assms(1) nonneg] go_rem_nonneg [OF assms(1,2)])
qed

theorem Sequence_periodic_witness:
  "0 <s totalDuration [F 2 (Constant (Float64frombits 0)), F 3 (\<lambda>x. Inr (Float64frombits x))]
   \<and> (0::Duration) \<le>s 9
   \<and> sint (9::Duration)
       + sint (totalDuration [F 2 (Constant (Float64frombits 0)), F 3 (\<lambda>x. Inr (Float64frombits x))])
       < 2 ^ 63
   \<and> Sequence [F 2 (Constant (Float64frombits 0)), F 3 (\<lambda>x. Inr (Float64frombits x))] 14
       = Sequence [F 2 (Constant (Float64frombits 0)), F 3 (\<lambda>x. Inr (Float64frombits x))] 9"
proof -
  let ?segs = "[F 2 (Constant (Float64frombits 0)), F 3 (\<lambda>x. Inr (Float64frombits x))]"
  have tot: "totalDuration ?segs = 5" by (simp add: totalDuration_def F_def)
  have h1: "0 <s totalDuration ?segs"
    unfolding tot by (simp add: word_sless_alt)
  have h2: "(0::Duration) \<le>s 9"
    by (simp add: word_sle_eq)
  have h3: "sint (9::Duration) + sint (totalDuration ?segs) < 2 ^ 63"
    unfolding tot by simp
  from Sequence_periodic [OF h1 h2 h3] have "Sequence ?segs (9 + 5) = Sequence ?segs 9"
    unfolding tot .
  with h1 h2 h3 show ?thesis by simp
qed

text \<open>
  Claim C7, as stated, fails where the sum of the two durations overflows \<^verbatim>\<open>int64\<close>: with
  two segments of \<open>2^62\<close> ns each the total wraps to \<open>-2^63\<close>, no segment's interval
  contains \<open>t = d1\<close>, and the closure panics instead of returning the second segment's
  value.
\<close>

theorem Sequence_boundary_counterexample:
  "(0::Duration) <s 4611686018427387904
   \<and> At (Constant (Float64frombits 1)) (4611686018427387904::Duration) = Inr (Float64frombits 1)
   \<and> Sequence [F 4611686018427387904 (Constant (Float64frombits 0)),
                F 4611686018427387904 (Constant (Float64frombits 1))] 4611686018427387904
       = Inl Unreachable"
proof -
  have tot: "totalDuration [F 4611686018427387904 (Constant (Float64frombits 0)),
                F 4611686018427387904 (Constant (Float64frombits 1))] = 9223372036854775808"
    by (simp add: totalDuration_def F_def)
  have rem: "go_rem 4611686018427387904 9223372036854775808 = Inr 4611686018427387904"
    by (simp add: go_rem_def smod_int_alt_def)
  have "Sequence [F 4611686018427387904 (Constant (Float64frombits 0)),
                F 4611686018427387904 (Constant (Float64frombits 1))] 4611686018427387904
       = Inl Unreachable"
    unfolding Sequence_def tot rem
    by (simp add: F_def word_sless_alt word_sle_eq)
  then show ?thesis
    by (simp add: Constant_def word_sless_alt)
qed

text \<open>
  Claim C7, amended. For any two segments of durations \<open>d1 > 0\<close> and \<open>d2 > 0\<close> whose sum
  does not overflow \<^verbatim>\<open>int64\<close> (\<open>d1 + d2 < 2^63\<close> ns), the sequence evaluated at \<open>t = d1\<close>
  returns the second segment's underlying signal evaluated at \<open>d1\<close>: a time on a segment
  boundary belongs to the segment that starts there.
\<close>

theorem Sequence_boundary:
  assumes "0 <s d1" and "0 <s d2" and "sint d1 + sint d2 < 2 ^ 63"
  shows "Sequence [F d1 s1, F d2 s2] d1 = At s2 d1"
proof -
  from assms have d1: "0 < sint d1" and d2: "0 < sint d2"
    by (simp_all add: word_sless_alt)
  have s: "sint (d1 + d2) = sint d1 + sint d2"
    using assms(3) d1 d2 by (simp add: sint_word_add signed_take_bit_int_eq_self)
  have tot: "totalDuration [F d1 s1, F d2 s2] = d1 + d2"
    by (simp add: totalDuration_def F_def)
  have pos: "0 <s d1 + d2" using s d1 d2 by (simp add: word_sless_alt)
  have nn: "0 \<le>s d1" using d1 by (simp add: word_sle_eq)
  have x: "time_in_period d1 (d1 + d2) = d1"
    using d1 d2 by (simp add: time_in_period_def s)
  have "Sequence [F d1 s1, F d2 s2] d1 = walk [F d1 s1, F d2 s2] d1 0"
    by (simp add: Sequence_def tot go_rem_nonneg [OF pos nn] x)
  also have "\<dots> = At s2 d1"
    using d1 d2 s by (simp add: F_def word_sless_alt word_sle_eq)
  finally show ?thesis .
qed

theorem Sequence_boundary_witness:
  "(0::Duration) <s 2 \<and> (0::Duration) <s 3 \<and> sint (2::Duration) + sint (3::Duration) < 2 ^ 63
   \<and> Sequence [F 2 (Constant (Float64frombits 0)), F 3 (\<lambda>x. Inr (Float64frombits x))] 2
       = Inr (Float64frombits 2)"
proof -
  have h1: "(0::Duration) <s 2" and h2: "(0::Duration) <s 3"
    by (simp_all add: word_sless_alt)
  have h3: "sint (2::Duration) + sint (3::Duration) < 2 ^ 63" by simp
  from Sequence_boundary [OF h1 h2 h3, of "Constant (Float64frombits 0)" "\<lambda>x. Inr (Float64frombits x)"]
    h1 h2 h3 show ?thesis by simp
qed

text \<open>
  Claim C3, as stated, fails: \<^verbatim>\<open>Sequence\<close> has no check of the total duration. Called with
  no segments it is not rejected: it returns a signal like any other call. Evaluating that
  signal executes \<^verbatim>\<open>x % totalDuration\<close> with the divisor zero, and the outcome is the
  run-time panic of that integer division by zero itself, Go's generic run-time error.
\<close>

theorem Sequence_zero_total_counterexample:
  "totalDuration [] = 0
   \<and> go_rem 0 (totalDuration []) = Inl IntegerDivideByZero
   \<and> Sequence [] 0 = Inl IntegerDivideByZero"
  by (simp add: Sequence_def totalDuration_def go_rem_def)

text \<open>
  Claim C3, amended. \<^verbatim>\<open>Sequence\<close> does not check the total duration and does not reject
  the call: it returns a signal. When the total duration is zero (no segments, or durations
  that sum to zero), every evaluation of the returned signal, at any time offset, executes
  the modulo with a zero divisor and aborts with the run-time panic of the integer division
  by zero; no amplitude, undefined or NaN, is produced.
\<close>

theorem Sequence_zero_total_panics:
  assumes "totalDuration segs = 0"
  shows "Sequence segs t = Inl IntegerDivideByZero"
  using assms by (simp add: Sequence_def go_rem_def)

text \<open>An instance: two segments of duration zero, evaluated at \<open>t = 7\<close>.\<close>

theorem Sequence_zero_total_panics_witness:
  "totalDuration [F 0 (Constant (Float64frombits 0)), F 0 (Constant (Float64frombits 1))] = 0
   \<and> Sequence [F 0 (Constant (Float64frombits 0)), F 0 (Constant (Float64frombits 1))] 7
       = Inl IntegerDivideByZero"
proof -
  have h: "totalDuration [F 0 (Constant (Float64frombits 0)), F 0 (Constant (Float64frombits 1))] = 0"
    by (simp add: totalDuration_def F_def)
  from Sequence_zero_total_panics [OF h, of 7] h show ?thesis by simp
qed

section \<open>EncodePCM: the round trip\<close>

declare DecodePCM.simps [simp del]

lemma Uint64_bytes:
  "Uint64 [b0, b1, b2, b3, b4, b5, b6, b7] =
     ucast b7 OR push_bit 8 (ucast b6) OR push_bit 16 (ucast b5) OR push_bit 24 (ucast b4)
     OR push_bit 32 (ucast b3) OR push_bit 40 (ucast b2) OR push_bit 48 (ucast b1)
     OR push_bit 56 (ucast b0)"
  by (simp add: Uint64_def)

lemma bit_byte_of:
  fixes v :: "64 word"
  assumes "n < 64"
  shows "bit (push_bit k (ucast (ucast (drop_bit k v) :: 8 word) :: 64 word)) n
         \<longleftrightarrow> k \<le> n \<and> n < k + 8 \<and> bit v n"
proof (cases "k \<le> n")
  case True
  then have "k + (n - k) = n" by simp
  with True assms show ?thesis
    by (auto simp add: bit_push_bit_iff bit_ucast_iff bit_drop_bit_eq)
next
  case False
  then show ?thesis by (simp add: bit_push_bit_iff)
qed

lemma bit_low_byte_of:
  fixes v :: "64 word"
  shows "bit (ucast (ucast v :: 8 word) :: 64 word) n \<longleftrightarrow> n < 8 \<and> bit v n"
  by (auto simp add: bit_ucast_iff dest: bit_imp_le_length)

lemma Uint64_PutUint64: "Uint64 (PutUint64 v) = v"
proof (rule bit_word_eqI)
  fix n :: nat
  assume "n < LENGTH(64)"
  then have n: "n < 64" by simp
  have "bit (Uint64 (PutUint64 v)) n \<longleftrightarrow>
        (n < 8 \<or> 8 \<le> n \<and> n < 16 \<or> 16 \<le> n \<and> n < 24 \<or> 24 \<le> n \<and> n < 32
          \<or> 32 \<le> n \<and> n < 40 \<or> 40 \<le> n \<and> n < 48 \<or> 48 \<le> n \<and> n < 56
          \<or> 56 \<le> n \<and> n < 64) \<and> bit v n"
    unfolding PutUint64_def Uint64_bytes bit_or_iff bit_byte_of [OF n] bit_low_byte_of
    by auto
  also from n have "\<dots> \<longleftrightarrow> bit v n"
    by auto
  finally show "bit (Uint64 (PutUint64 v)) n \<longleftrightarrow> bit v n" .
qed

lemma length_PutUint64: "length (PutUint64 v) = 8"
  by (simp add: PutUint64_def)

lemma EncodePCM_loop_append:
  "EncodePCM_loop frames b = b @ concat (map (\<lambda>pulse. PutUint64 (Float64bits pulse)) frames)"
  by (induction frames arbitrary: b) simp_all

lemma DecodePCM_Nil: "DecodePCM [] = []"
  by (simp add: DecodePCM.simps)

lemma DecodePCM_frame:
  "DecodePCM (PutUint64 v @ rest) = Float64frombits v # DecodePCM rest"
  by (subst DecodePCM.simps) (simp add: length_PutUint64 Uint64_PutUint64)

lemma DecodePCM_concat:
  "DecodePCM (concat (map (\<lambda>pulse. PutUint64 (Float64bits pulse)) frames)) = frames"
  by (induction frames) (simp_all add: DecodePCM_Nil DecodePCM_frame)

text \<open>
  Claim C8. For every finite sequence of samples, \<^verbatim>\<open>EncodePCM\<close> (a total function: it has
  no error outcome) produces exactly \<open>8 * len(samples)\<close> bytes, and reading the buffer back
  eight bytes at a time as big-endian 64-bit floats gives the original samples, bit for bit.
\<close>

theorem EncodePCM_roundtrip:
  "length (EncodePCM frames) = 8 * length frames \<and> DecodePCM (EncodePCM frames) = frames"
proof
  show "length (EncodePCM frames) = 8 * length frames"
    by (induction frames) (simp_all add: EncodePCM_def EncodePCM_loop_append length_PutUint64)
  show "DecodePCM (EncodePCM frames) = frames"
    by (simp add: EncodePCM_def EncodePCM_loop_append DecodePCM_concat)
qed

text \<open>
  An instance: 1.0 and a NaN with a payload; the bytes are the two bit patterns, most
  significant byte first.
\<close>

theorem EncodePCM_roundtrip_witness:
  "EncodePCM [Float64frombits 0x3FF0000000000000, Float64frombits 0x7FF8000000000001]
     = [0x3F, 0xF0, 0, 0, 0, 0, 0, 0, 0x7F, 0xF8, 0, 0, 0, 0, 0, 1]
   \<and> length (EncodePCM [Float64frombits 0x3FF0000000000000, Float64frombits 0x7FF8000000000001]) = 8 * 2
   \<and> DecodePCM (EncodePCM [Float64frombits 0x3FF0000000000000, Float64frombits 0x7FF8000000000001])
     = [Float64frombits 0x3FF0000000000000, Float64frombits 0x7FF8000000000001]"
proof -
  have "EncodePCM [Float64frombits 0x3FF0000000000000, Float64frombits 0x7FF8000000000001]
     = [0x3F, 0xF0, 0, 0, 0, 0, 0, 0, 0x7F, 0xF8, 0, 0, 0, 0, 0, 1]"
    by (simp add: EncodePCM_def PutUint64_def)
  with EncodePCM_roundtrip [of "[Float64frombits 0x3FF0000000000000, Float64frombits 0x7FF8000000000001]"]
  show ?thesis by simp
qed

section \<open>Facts about binary64 rounding\<close>

lemma two_powi_pos [simp]: "0 < (2::rat) powi l"
  by (simp add: zero_less_power_int)

lemma two_powi_add: "(2::rat) powi (a + b) = 2 powi a * 2 powi b"
  by (simp add: power_int_add)

lemma two_powi_diff: "(2::rat) powi (a - b) = 2 powi a / 2 powi b"
  by (simp add: power_int_diff)

lemma two_powi_nat: "0 \<le> a \<Longrightarrow> (2::rat) powi a = 2 ^ nat a"
  by (simp add: power_int_def)

lemma two_powi_mono: "a \<le> b \<Longrightarrow> (2::rat) powi a \<le> 2 powi b"
  by (rule power_int_increasing) simp_all

lemma two_powi_less_cancel: "(2::rat) powi a < 2 powi b \<Longrightarrow> a < b"
  using two_powi_mono [of b a] by (cases "a < b") auto

lemma flog2_bounds:
  assumes "0 < x"
  shows "2 powi (flog2 x) \<le> x" and "x < 2 powi (flog2 x + 1)"
proof -
  obtain n d where q: "quotient_of x = (n, d)" by (cases "quotient_of x")
  then have d: "0 < d" and x: "x = of_int n / of_int d"
    by (auto dest: quotient_of_denom_pos quotient_of_div)
  with assms have n: "0 < n" by (simp add: zero_less_divide_iff)
  define l where "l = bitlen n - bitlen d"
  have bn: "2 ^ nat (bitlen n - 1) \<le> n" "n < 2 ^ nat (bitlen n)"
    using bitlen_bounds [OF n] by auto
  have bd: "2 ^ nat (bitlen d - 1) \<le> d" "d < 2 ^ nat (bitlen d)"
    using bitlen_bounds [OF d] by auto
  have pn: "1 \<le> bitlen n" using n bitlen_nonneg [of n] bitlen_eq_zero_iff [of n] by linarith
  have pd: "1 \<le> bitlen d" using d bitlen_nonneg [of d] bitlen_eq_zero_iff [of d] by linarith
  have n_up: "rat_of_int n < 2 powi (bitlen n)"
  proof -
    have "rat_of_int n < rat_of_int (2 ^ nat (bitlen n))" using bn(2) by (simp only: of_int_less_iff)
    then show ?thesis using pn by (simp add: two_powi_nat)
  qed
  have n_lo: "2 powi (bitlen n - 1) \<le> rat_of_int n"
  proof -
    have "rat_of_int (2 ^ nat (bitlen n - 1)) \<le> rat_of_int n" using bn(1) by (simp only: of_int_le_iff)
    then show ?thesis using pn by (simp add: two_powi_nat)
  qed
  have d_up: "rat_of_int d < 2 powi (bitlen d)"
  proof -
    have "rat_of_int d < rat_of_int (2 ^ nat (bitlen d))" using bd(2) by (simp only: of_int_less_iff)
    then show ?thesis using pd by (simp add: two_powi_nat)
  qed
  have d_lo: "2 powi (bitlen d - 1) \<le> rat_of_int d"
  proof -
    have "rat_of_int (2 ^ nat (bitlen d - 1)) \<le> rat_of_int d" using bd(1) by (simp only: of_int_le_iff)
    then show ?thesis using pd by (simp add: two_powi_nat)
  qed
  have dpos: "0 < rat_of_int d" using d by simp
  have up: "x < 2 powi (l + 1)"
  proof -
    have "rat_of_int n < 2 powi (l + 1) * 2 powi (bitlen d - 1)"
      using n_up by (simp add: l_def flip: two_powi_add)
    also have "\<dots> \<le> 2 powi (l + 1) * rat_of_int d"
      using d_lo by (simp add: mult_left_mono)
    finally show ?thesis using dpos by (simp add: x pos_divide_less_eq)
  qed
  have lo: "2 powi (l - 1) < x"
  proof -
    have "2 powi (l - 1) * rat_of_int d < 2 powi (l - 1) * 2 powi (bitlen d)"
      using d_up by (simp add: mult_strict_left_mono)
    also have "\<dots> = 2 powi (bitlen n - 1)"
      by (simp add: l_def flip: two_powi_add)
    also have "\<dots> \<le> rat_of_int n" by (rule n_lo)
    finally show ?thesis using dpos by (simp add: x pos_less_divide_eq)
  qed
  have fl: "flog2 x = (if 2 powi l \<le> x then l else l - 1)"
    by (simp add: flog2_def q l_def Let_def)
  show "2 powi (flog2 x) \<le> x" using lo by (simp add: fl)
  show "x < 2 powi (flog2 x + 1)" using up by (simp add: fl)
qed

lemma flog2_unique:
  assumes "2 powi l \<le> x" and "x < 2 powi (l + 1)"
  shows "flog2 x = l"
proof -
  have pos: "0 < x" using assms(1) two_powi_pos [of l] by linarith
  have "2 powi (flog2 x) < (2::rat) powi (l + 1)"
    using flog2_bounds(1) [OF pos] assms(2) by linarith
  then have 1: "flog2 x < l + 1" by (rule two_powi_less_cancel)
  have "2 powi l < (2::rat) powi (flog2 x + 1)"
    using flog2_bounds(2) [OF pos] assms(1) by linarith
  then have "l < flog2 x + 1" by (rule two_powi_less_cancel)
  with 1 show ?thesis by linarith
qed

subsection \<open>Reading the fields of an encoded pattern\<close>

lemma unat_word_of_int_64:
  assumes "0 \<le> k" and "k < 2 ^ 64"
  shows "unat (word_of_int k :: 64 word) = nat k"
proof -
  have "uint (word_of_int k :: 64 word) = k"
    using assms by (simp add: uint_word_of_int take_bit_eq_mod)
  then show ?thesis by (simp add: unat_eq_nat_uint)
qed

lemma unat_bits:
  assumes "E < 2048" and "fr < 2 ^ 52"
  shows "unat (word_of_int ((if s then 2 ^ 63 else 0) + (int E * 2 ^ 52 + int fr)) :: 64 word)
         = (if s then 2 ^ 11 else 0) * 2 ^ 52 + (E * 2 ^ 52 + fr)"
proof -
  let ?k = "(if s then 2 ^ 63 else 0) + (int E * 2 ^ 52 + int fr)"
  have "int E * 2 ^ 52 + int fr < 2048 * 2 ^ 52"
    using assms by (simp add: nat_less_iff) 
  then have "0 \<le> ?k" "?k < 2 ^ 64" by auto
  then have "unat (word_of_int ?k :: 64 word) = nat ?k"
    by (rule unat_word_of_int_64)
  also have "\<dots> = (if s then 2 ^ 11 else 0) * 2 ^ 52 + (E * 2 ^ 52 + fr)"
    by (simp add: nat_add_distrib nat_mult_distrib nat_power_eq)
  finally show ?thesis .
qed

lemma div_mod_fields:
  fixes a m fr :: nat
  assumes "fr < m"
  shows "(a * m + fr) div m = a" and "(a * m + fr) mod m = fr"
  using assms by simp_all

lemma fields_of_bits:
  fixes s :: bool and E fr :: nat
  assumes "E < 2048" and "fr < 2 ^ 52"
  defines "f \<equiv> Float64frombits (word_of_int ((if s then 2 ^ 63 else 0) + (int E * 2 ^ 52 + int fr)))"
  shows "f_sign f = s" and "f_exp f = E" and "f_frac f = fr"
proof -
  have u: "unat (Float64bits f) = ((if s then 2 ^ 11 else 0) + E) * 2 ^ 52 + fr"
    unfolding f_def using unat_bits [OF assms(1,2), of s] by (simp add: algebra_simps)
  have lt: "E * 2 ^ 52 + fr < 2 ^ 63"
  proof -
    have "E * 2 ^ 52 + fr < (E + 1) * 2 ^ 52" using assms(2) by simp
    also have "\<dots> \<le> 2048 * 2 ^ 52" using assms(1) by (intro mult_right_mono) simp_all
    finally show ?thesis by simp
  qed
  show "f_sign f = s"
    using lt by (cases s) (simp_all add: f_sign_def u)
  have d: "unat (Float64bits f) div 2 ^ 52 = (if s then 2 ^ 11 else 0) + E"
    unfolding u using assms(2) by (rule div_mod_fields(1))
  show "f_exp f = E"
    unfolding f_exp_def d using assms(1) by (cases s) simp_all
  show "f_frac f = fr"
    unfolding f_frac_def u using assms(2) by (rule div_mod_fields(2))
qed

subsection \<open>Values that need no rounding\<close>

lemma round_normal:
  fixes M e :: int and s :: bool
  assumes "2 ^ 52 \<le> M" and "M < 2 ^ 53" and "- 1074 \<le> e" and "e \<le> 971"
  shows "round_to_float64 s (of_int M * 2 powi e) =
         Float64frombits (word_of_int ((if s then 2 ^ 63 else 0) + ((e + 1074) * 2 ^ 52 + M)))"
proof -
  let ?x = "rat_of_int M * 2 powi e"
  have M1: "(2::rat) ^ 52 \<le> of_int M"
    using assms(1) by (metis of_int_le_iff of_int_numeral of_int_power)
  have M2: "rat_of_int M < 2 ^ 53"
    using assms(2) by (metis of_int_less_iff of_int_numeral of_int_power)
  have "2 powi (52 + e) = (2::rat) ^ 52 * 2 powi e"
    by (simp add: two_powi_add two_powi_nat)
  also have "\<dots> \<le> ?x" using M1 by (simp add: mult_right_mono)
  finally have lo: "2 powi (52 + e) \<le> ?x" .
  have "?x < 2 ^ 53 * 2 powi e" using M2 by (simp add: mult_strict_right_mono)
  also have "\<dots> = 2 powi (52 + e + 1)"
    by (simp add: two_powi_add two_powi_nat)
  finally have up: "?x < 2 powi (52 + e + 1)" .
  have fl: "flog2 ?x = 52 + e" using lo up by (rule flog2_unique)
  have mx: "max (flog2 ?x - 52) (- 1074) = e" using assms(3) by (simp add: fl)
  have y: "?x / 2 powi e = of_int M" by simp
  have b: "min ((e + 1074) * 2 ^ 52 + M) (2047 * 2 ^ 52) = (e + 1074) * 2 ^ 52 + M"
  proof -
    have "(e + 1074) * 2 ^ 52 \<le> 2045 * (2 ^ 52 :: int)"
      using assms(4) by (intro mult_right_mono) simp_all
    with assms(2) show ?thesis by simp
  qed
  have c: "\<not> ((1::rat) / 2 < 0 \<or> ((0::rat) = 1 / 2 \<and> odd M))" by simp
  show ?thesis
    unfolding round_to_float64_def mx Let_def y floor_of_int diff_self if_not_P [OF c] b ..
qed

lemma round_normal_fields:
  fixes M e :: int and s :: bool
  assumes "2 ^ 52 \<le> M" and "M < 2 ^ 53" and "- 1074 \<le> e" and "e \<le> 971"
  defines "f \<equiv> round_to_float64 s (of_int M * 2 powi e)"
  shows "f_sign f = s" and "f_exp f = nat (e + 1075)" and "f_frac f = nat (M - 2 ^ 52)"
proof -
  let ?E = "nat (e + 1075)" and ?fr = "nat (M - 2 ^ 52)"
  have E: "?E < 2048" using assms(4) by simp
  have fr: "?fr < 2 ^ 52" using assms(2) by (simp add: nat_less_iff)
  have "(e + 1074) * 2 ^ 52 + M = int ?E * 2 ^ 52 + int ?fr"
    using assms(1,3) by (simp add: algebra_simps)
  then have f: "f = Float64frombits (word_of_int ((if s then 2 ^ 63 else 0) + (int ?E * 2 ^ 52 + int ?fr)))"
    unfolding f_def round_normal [OF assms(1-4)] by (simp only:)
  show "f_sign f = s" unfolding f by (rule fields_of_bits(1) [OF E fr])
  show "f_exp f = ?E" unfolding f by (rule fields_of_bits(2) [OF E fr])
  show "f_frac f = ?fr" unfolding f by (rule fields_of_bits(3) [OF E fr])
qed

lemma round_normal_valof:
  fixes M e :: int and s :: bool
  assumes "2 ^ 52 \<le> M" and "M < 2 ^ 53" and "- 1074 \<le> e" and "e \<le> 971"
  defines "f \<equiv> round_to_float64 s (of_int M * 2 powi e)"
  shows "valof f = (if s then - 1 else 1) * (of_int M * 2 powi e)"
    and "is_finite f" and "\<not> is_NaN f" and "\<not> is_Inf f" and "\<not> is_zero f"
proof -
  note fl = round_normal_fields [OF assms(1-4), of s, folded f_def]
  have E: "f_exp f \<noteq> 0" "f_exp f < 2047" "int (f_exp f) - 1075 = e"
    using assms(3,4) by (simp_all add: fl)
  have "rat_of_nat (2 ^ 52 + f_frac f) = of_int M"
  proof -
    have "int (2 ^ 52 + f_frac f) = M" using assms(1) by (simp add: fl)
    then show ?thesis by (metis of_int_of_nat_eq)
  qed
  then show "valof f = (if s then - 1 else 1) * (of_int M * 2 powi e)"
    unfolding valof_def using E by (simp add: fl(1))
  show "is_finite f" "\<not> is_NaN f" "\<not> is_Inf f" "\<not> is_zero f"
    using E by (simp_all add: is_finite_def is_NaN_def is_Inf_def is_zero_def)
qed

lemma int_normal_form:
  fixes n :: int
  assumes "0 < n" and "n < 2 ^ 53"
  obtains M e :: int where "2 ^ 52 \<le> M" and "M < 2 ^ 53" and "- 52 \<le> e" and "e \<le> 0"
    and "rat_of_int n = of_int M * 2 powi e"
proof -
  define a where "a = bitlen n"
  have a1: "1 \<le> a"
    using assms(1) bitlen_nonneg [of n] bitlen_eq_zero_iff [of n] by (simp add: a_def)
  have a2: "a \<le> 53"
    using assms(2) by (simp add: a_def bitlen_le_iff_power)
  define k where "k = nat (53 - a)"
  have bn: "2 ^ nat (a - 1) \<le> n" "n < 2 ^ nat a"
    using bitlen_bounds [OF assms(1)] by (auto simp: a_def)
  have s1: "nat (a - 1) + k = 52" and s2: "nat a + k = 53"
    using a1 a2 by (simp_all add: k_def)
  have "(2::int) ^ 52 = 2 ^ nat (a - 1) * 2 ^ k"
    by (simp add: s1 flip: power_add)
  also have "\<dots> \<le> n * 2 ^ k" using bn(1) by (intro mult_right_mono) simp_all
  finally have M1: "2 ^ 52 \<le> n * 2 ^ k" .
  have "n * 2 ^ k < 2 ^ nat a * 2 ^ k" using bn(2) by (intro mult_strict_right_mono) simp_all
  also have "\<dots> = (2::int) ^ 53" by (simp add: s2 flip: power_add)
  finally have M2: "n * 2 ^ k < 2 ^ 53" .
  have e1: "- 52 \<le> - int k" and e2: "- int k \<le> 0" using a1 by (simp_all add: k_def)
  have "rat_of_int n = of_int (n * 2 ^ k) * 2 powi (- int k)"
    by (simp add: power_int_minus)
  with M1 M2 e1 e2 show ?thesis by (rule that)
qed

lemma round_int:
  fixes n :: int and s :: bool
  assumes "0 < n" and "n < 2 ^ 53"
  defines "f \<equiv> round_to_float64 s (of_int n)"
  shows "valof f = (if s then - 1 else 1) * of_int n"
    and "f_sign f = s" and "is_finite f" and "\<not> is_NaN f" and "\<not> is_Inf f" and "\<not> is_zero f"
proof -
  from assms(1,2) obtain M e :: int where Me: "2 ^ 52 \<le> M" "M < 2 ^ 53" "- 52 \<le> e" "e \<le> 0"
    and n: "rat_of_int n = of_int M * 2 powi e"
    by (rule int_normal_form)
  from Me(3,4) have e: "- 1074 \<le> e" "e \<le> 971" by simp_all
  show "valof f = (if s then - 1 else 1) * of_int n"
    unfolding f_def n by (rule round_normal_valof(1) [OF Me(1,2) e])
  show "f_sign f = s"
    unfolding f_def n by (rule round_normal_fields(1) [OF Me(1,2) e])
  show "is_finite f" unfolding f_def n by (rule round_normal_valof(2) [OF Me(1,2) e])
  show "\<not> is_NaN f" unfolding f_def n by (rule round_normal_valof(3) [OF Me(1,2) e])
  show "\<not> is_Inf f" unfolding f_def n by (rule round_normal_valof(4) [OF Me(1,2) e])
  show "\<not> is_zero f" unfolding f_def n by (rule round_normal_valof(5) [OF Me(1,2) e])
qed

lemma mk_zero_fields:
  "f_sign (mk_zero s) = s" "f_exp (mk_zero s) = 0" "f_frac (mk_zero s) = 0"
  by (cases s; simp add: mk_zero_def f_sign_def f_exp_def f_frac_def)+

lemma mk_zero_props:
  "valof (mk_zero s) = 0" "is_finite (mk_zero s)" "\<not> is_NaN (mk_zero s)"
  "\<not> is_Inf (mk_zero s)" "is_zero (mk_zero s)"
  by (simp_all add: valof_def is_finite_def is_NaN_def is_Inf_def is_zero_def mk_zero_fields)

lemma mk_inf_fields:
  "f_sign (mk_inf s) = s" "f_exp (mk_inf s) = 2047" "f_frac (mk_inf s) = 0"
  by (cases s; simp add: mk_inf_def f_sign_def f_exp_def f_frac_def)+

lemma mk_inf_props:
  "\<not> is_finite (mk_inf s)" "\<not> is_NaN (mk_inf s)" "is_Inf (mk_inf s)" "\<not> is_zero (mk_inf s)"
  by (simp_all add: is_finite_def is_NaN_def is_Inf_def is_zero_def mk_inf_fields)

lemma qNaN_props: "is_NaN qNaN" "\<not> is_finite qNaN" "\<not> is_Inf qNaN" "\<not> is_zero qNaN"
  by (simp_all add: qNaN_def is_NaN_def is_finite_def is_Inf_def is_zero_def f_exp_def f_frac_def)

text \<open>Integers below \<open>2^53\<close> in magnitude convert exactly.\<close>

lemma float64_of_int64_exact:
  fixes w :: "64 word"
  assumes "\<bar>sint w\<bar> < 2 ^ 53"
  defines "f \<equiv> float64_of_int64 w"
  shows "valof f = of_int (sint w)"
    and "is_finite f" and "\<not> is_NaN f" and "\<not> is_Inf f"
    and "is_zero f \<longleftrightarrow> sint w = 0" and "f_sign f \<longleftrightarrow> sint w < 0"
proof -
  consider "sint w = 0" | "sint w \<noteq> 0" by blast
  then have "valof f = of_int (sint w) \<and> is_finite f \<and> \<not> is_NaN f \<and> \<not> is_Inf f
      \<and> (is_zero f \<longleftrightarrow> sint w = 0) \<and> (f_sign f \<longleftrightarrow> sint w < 0)"
  proof cases
    case 1
    then have "f = mk_zero False" by (simp add: f_def float64_of_int64_def)
    with 1 show ?thesis by (simp add: mk_zero_props mk_zero_fields)
  next
    case 2
    then have f: "f = round_to_float64 (sint w < 0) (of_int \<bar>sint w\<bar>)"
      by (simp add: f_def float64_of_int64_def)
    from 2 have pos: "0 < \<bar>sint w\<bar>" by simp
    note r = round_int [OF pos assms(1), of "sint w < 0", folded f]
    from r 2 show ?thesis by (auto simp: abs_if)
  qed
  then show "valof f = of_int (sint w)"
    and "is_finite f" and "\<not> is_NaN f" and "\<not> is_Inf f"
    and "is_zero f \<longleftrightarrow> sint w = 0" and "f_sign f \<longleftrightarrow> sint w < 0"
    by blast+
qed

subsection \<open>Arithmetic on exactly represented integers\<close>

lemma sint_add_small:
  fixes a b :: "64 word"
  assumes "\<bar>sint a\<bar> < 2 ^ 53" and "\<bar>sint b\<bar> < 2 ^ 53"
  shows "sint (a + b) = sint a + sint b"
  using assms by (simp add: sint_word_add signed_take_bit_int_eq_self)

lemma sint_word_of_int_small:
  fixes n :: int
  assumes "\<bar>n\<bar> < 2 ^ 62"
  shows "sint (word_of_int n :: 64 word) = n"
  using assms by (simp add: sint_sbintrunc' signed_take_bit_int_eq_self)

lemma fadd_exact:
  fixes a b :: "64 word"
  assumes a: "\<bar>sint a\<bar> < 2 ^ 53" and b: "\<bar>sint b\<bar> < 2 ^ 53"
  shows "fadd (float64_of_int64 a) (float64_of_int64 b) = float64_of_int64 (a + b)"
proof -
  note A = float64_of_int64_exact [OF a] and B = float64_of_int64_exact [OF b]
  have s: "sint (a + b) = sint a + sint b" using a b by (rule sint_add_small)
  have v: "valof (float64_of_int64 a) + valof (float64_of_int64 b) = of_int (sint a + sint b)"
    by (simp add: A(1) B(1))
  have neg: "(rat_of_int (sint a + sint b) < 0) = (sint a + sint b < 0)"
    by (simp only: of_int_less_0_iff)
  have ab: "\<bar>rat_of_int (sint a + sint b)\<bar> = rat_of_int \<bar>sint a + sint b\<bar>"
    by (simp only: of_int_abs)
  have z: "(rat_of_int (sint a + sint b) = 0) = (sint a + sint b = 0)"
    by (simp only: of_int_eq_0_iff)
  have sg: "(is_zero (float64_of_int64 a) \<and> is_zero (float64_of_int64 b)
            \<and> f_sign (float64_of_int64 a) \<and> f_sign (float64_of_int64 b)) = False"
    by (auto simp: A B)
  have "fadd (float64_of_int64 a) (float64_of_int64 b) =
        (if sint a + sint b = 0 then mk_zero False
         else round_to_float64 (sint a + sint b < 0) (rat_of_int \<bar>sint a + sint b\<bar>))"
    unfolding fadd_def Let_def v neg ab z sg
    by (simp only: A(3,4) B(3,4) simp_thms if_False)
  also have "\<dots> = float64_of_int64 (a + b)"
    unfolding float64_of_int64_def [of "a + b"] s ..
  finally show ?thesis .
qed

lemma flt_exact:
  fixes a b :: "64 word"
  assumes a: "\<bar>sint a\<bar> < 2 ^ 53" and b: "\<bar>sint b\<bar> < 2 ^ 53"
  shows "flt (float64_of_int64 a) (float64_of_int64 b) \<longleftrightarrow> sint a < sint b"
proof -
  note A = float64_of_int64_exact [OF a] and B = float64_of_int64_exact [OF b]
  have "valof (float64_of_int64 a) < valof (float64_of_int64 b) \<longleftrightarrow> sint a < sint b"
    by (simp only: A(1) B(1) of_int_less_iff)
  then show ?thesis
    unfolding flt_def by (simp only: A(3,4) B(3,4) simp_thms if_False)
qed

lemma int64_of_float64_exact:
  fixes a :: "64 word"
  assumes a: "\<bar>sint a\<bar> < 2 ^ 53"
  shows "int64_of_float64 (float64_of_int64 a) = Some a"
proof -
  note A = float64_of_int64_exact [OF a]
  have r: "- (2 ^ 63) \<le> sint a" "sint a < 2 ^ 63"
    using sint_ge [of a] sint_lt [of a] by simp_all
  have v: "(if 0 \<le> rat_of_int (sint a) then \<lfloor>rat_of_int (sint a)\<rfloor> else \<lceil>rat_of_int (sint a)\<rceil>) = sint a"
    by (simp only: floor_of_int ceiling_of_int if_cancel)
  show ?thesis
    unfolding int64_of_float64_def Let_def A(1) v
    using r A(2) by simp
qed

lemma fdiv_exact:
  fixes a b :: "64 word"
  assumes a: "0 < sint a" "sint a < 2 ^ 53" and b: "0 < sint b" and dvd: "sint b dvd sint a"
  shows "fdiv (float64_of_int64 a) (float64_of_int64 b) =
         float64_of_int64 (word_of_int (sint a div sint b))"
proof -
  have b2: "sint b \<le> sint a" using dvd a(1) by (rule zdvd_imp_le)
  have a': "\<bar>sint a\<bar> < 2 ^ 53" and b': "\<bar>sint b\<bar> < 2 ^ 53" using a b b2 by simp_all
  note A = float64_of_int64_exact [OF a'] and B = float64_of_int64_exact [OF b']
  let ?q = "sint a div sint b"
  have q1: "0 < ?q" using a(1) b b2 by (simp add: pos_imp_zdiv_pos_iff)
  have q2: "?q \<le> sint a" using zdiv_mono2 [of "sint a" 1 "sint b"] a(1) b by simp
  have sq: "sint (word_of_int ?q :: 64 word) = ?q"
    using q1 q2 a(2) by (intro sint_word_of_int_small) simp
  have v: "\<bar>valof (float64_of_int64 a) / valof (float64_of_int64 b)\<bar> = of_int \<bar>?q\<bar>"
    unfolding A(1) B(1) of_int_div [OF dvd, symmetric] by (simp only: of_int_abs)
  have z: "is_zero (float64_of_int64 a) = False" "is_zero (float64_of_int64 b) = False"
    and sg: "(f_sign (float64_of_int64 a) \<noteq> f_sign (float64_of_int64 b)) = (?q < 0)"
    using a(1) b q1 by (simp_all add: A B)
  have "fdiv (float64_of_int64 a) (float64_of_int64 b) =
        round_to_float64 (?q < 0) (of_int \<bar>?q\<bar>)"
    unfolding fdiv_def v z sg
    by (simp only: A(3,4) B(3,4) simp_thms if_False)
  also have "\<dots> = float64_of_int64 (word_of_int ?q)"
    unfolding float64_of_int64_def [of "word_of_int ?q"] sq using q1 by simp
  finally show ?thesis .
qed

lemma fdiv_by_zero:
  fixes a b :: "64 word"
  assumes a: "0 < sint a" "sint a < 2 ^ 53" and b: "sint b = 0"
  shows "fdiv (float64_of_int64 a) (float64_of_int64 b) = mk_inf False"
proof -
  have a': "\<bar>sint a\<bar> < 2 ^ 53" and b': "\<bar>sint b\<bar> < 2 ^ 53" using a b by simp_all
  note A = float64_of_int64_exact [OF a'] and B = float64_of_int64_exact [OF b']
  show ?thesis
    unfolding fdiv_def using a(1) b by (simp add: A B)
qed

subsection \<open>Rounding one given value\<close>

text \<open>
  A certificate for one rounding: the exponent \<open>l\<close> of \<open>x\<close> (in the normal range), the integer
  part \<open>m\<close> of the scaled significand and the rounded significand \<open>m'\<close>.
\<close>

lemma round_to_float64_eval:
  fixes l m m' :: int
  assumes lo: "2 powi l \<le> x" and up: "x < 2 powi (l + 1)" and l: "- 1022 \<le> l"
    and m: "rat_of_int m \<le> x / 2 powi (l - 52)" "x / 2 powi (l - 52) < rat_of_int m + 1"
    and m': "m' = (if 1 / 2 < x / 2 powi (l - 52) - of_int m
                      \<or> (x / 2 powi (l - 52) - of_int m = 1 / 2 \<and> odd m) then m + 1 else m)"
    and fin: "(l + 1022) * 2 ^ 52 + m' < 2047 * 2 ^ 52"
  shows "round_to_float64 s x =
         Float64frombits (word_of_int ((if s then 2 ^ 63 else 0) + ((l + 1022) * 2 ^ 52 + m')))"
proof -
  have fl: "flog2 x = l" using lo up by (rule flog2_unique)
  have mx: "max (flog2 x - 52) (- 1074) = l - 52" using l by (simp add: fl)
  have f: "\<lfloor>x / 2 powi (l - 52)\<rfloor> = m" using m by (simp add: floor_eq_iff)
  have e: "l - 52 + 1074 = l + 1022" by simp
  have b: "min ((l + 1022) * 2 ^ 52 + m') (2047 * 2 ^ 52) = (l + 1022) * 2 ^ 52 + m'"
    using fin by simp
  show ?thesis
    unfolding round_to_float64_def mx Let_def f m' [symmetric] e b ..
qed

section \<open>Facts about the sampling loop\<close>

lemma Sample_loop_exit:
  assumes "\<not> flt i limit"
  shows "Sample_loop s step limit i frames = Some (Frames frames)"
  using assms by (subst Sample_loop.simps) simp

lemma Sample_loop_step:
  assumes "flt i limit" and "int64_of_float64 i = Some x" and "At s x = Inr val"
  shows "Sample_loop s step limit i frames = Sample_loop s step limit (fadd i step) (frames @ [val])"
  using assms by (subst Sample_loop.simps) simp

text \<open>
  The loop on exactly representable values: from \<open>f\<close>, in steps of \<open>p\<close>, below the limit \<open>l\<close>;
  the loop variable after \<open>k\<close> rounds is the integer \<open>f + k * p\<close>.
\<close>

lemma Sample_loop_exact:
  fixes f p l :: int and n k :: nat
  assumes p: "0 < p" "p \<le> 1000000000"
    and f: "- (2 ^ 52) \<le> f" "f \<le> 2 ^ 52" and l: "l \<le> 2 ^ 52" "- (2 ^ 52) \<le> l"
    and stop: "l \<le> f + int n * p"
    and go: "\<And>j. j < n \<Longrightarrow> f + int j * p < l"
    and val: "\<And>j. j < n \<Longrightarrow> At s (word_of_int (f + int j * p)) = Inr (g j)"
    and k: "k \<le> n"
  shows "Sample_loop s (float64_of_int64 (word_of_int p)) (float64_of_int64 (word_of_int l))
           (float64_of_int64 (word_of_int (f + int k * p))) frames
         = Some (Frames (frames @ map g [k..<n]))"
  using k
proof (induction "n - k" arbitrary: k frames)
  case 0
  then have kn: "k = n" by simp
  have nn: "0 \<le> int j * p" for j using p(1) by simp
  have l': "l \<le> 4503599627370496" and f': "- 4503599627370496 \<le> f" "f \<le> 4503599627370496"
    using l(1) f by simp_all
  have b: "\<bar>f + int n * p\<bar> < 2 ^ 53"
  proof (cases n)
    case 0
    with f show ?thesis by simp
  next
    case (Suc m)
    from go [of m] Suc have a1: "f + int m * p < l" by simp
    have e: "int n * p = int m * p + p" using Suc by (simp add: algebra_simps)
    have "f + int n * p < 4503599627370496 + 1000000000"
      unfolding e using a1 l' p(2) by linarith
    moreover have "- 4503599627370496 \<le> f + int n * p"
      using nn [of n] f'(1) by linarith
    ultimately show ?thesis by simp
  qed
  have sl: "sint (word_of_int l :: 64 word) = l"
    using l by (intro sint_word_of_int_small) simp
  have si: "sint (word_of_int (f + int n * p) :: 64 word) = f + int n * p"
    using b by (intro sint_word_of_int_small) simp
  have bl: "\<bar>sint (word_of_int l :: 64 word)\<bar> < 2 ^ 53" unfolding sl using l by simp
  have bi: "\<bar>sint (word_of_int (f + int n * p) :: 64 word)\<bar> < 2 ^ 53" unfolding si by (rule b)
  have "\<not> flt (float64_of_int64 (word_of_int (f + int n * p))) (float64_of_int64 (word_of_int l))"
    unfolding flt_exact [OF bi bl] si sl using stop by simp
  then have "Sample_loop s (float64_of_int64 (word_of_int p)) (float64_of_int64 (word_of_int l))
           (float64_of_int64 (word_of_int (f + int n * p))) frames = Some (Frames frames)"
    by (rule Sample_loop_exit)
  then show ?case unfolding kn by simp
next
  case (Suc d)
  then have kn: "k < n" and d: "d = n - Suc k" by simp_all
  let ?i = "f + int k * p"
  have lt: "?i < l" using go [OF kn] .
  have "0 \<le> int k * p" using p(1) by simp
  moreover have "- 4503599627370496 \<le> f" using f(1) by simp
  ultimately have "- 4503599627370496 \<le> ?i" by linarith
  then have lo: "- (2 ^ 52) \<le> ?i" by simp
  have b: "\<bar>?i\<bar> < 2 ^ 53" using lt lo l(1) by simp
  have sl: "sint (word_of_int l :: 64 word) = l"
    using l by (intro sint_word_of_int_small) simp
  have si: "sint (word_of_int ?i :: 64 word) = ?i"
    using b by (intro sint_word_of_int_small) simp
  have sp: "sint (word_of_int p :: 64 word) = p"
    using p by (intro sint_word_of_int_small) simp
  have bl: "\<bar>sint (word_of_int l :: 64 word)\<bar> < 2 ^ 53" unfolding sl using l by simp
  have bi: "\<bar>sint (word_of_int ?i :: 64 word)\<bar> < 2 ^ 53" unfolding si by (rule b)
  have bp: "\<bar>sint (word_of_int p :: 64 word)\<bar> < 2 ^ 53" unfolding sp using p by simp
  have 1: "flt (float64_of_int64 (word_of_int ?i)) (float64_of_int64 (word_of_int l))"
    unfolding flt_exact [OF bi bl] si sl by (rule lt)
  have 2: "int64_of_float64 (float64_of_int64 (word_of_int ?i)) = Some (word_of_int ?i)"
    using bi by (rule int64_of_float64_exact)
  have 3: "fadd (float64_of_int64 (word_of_int ?i)) (float64_of_int64 (word_of_int p))
           = float64_of_int64 (word_of_int (f + int (Suc k) * p))"
  proof -
    have "fadd (float64_of_int64 (word_of_int ?i)) (float64_of_int64 (word_of_int p))
           = float64_of_int64 (word_of_int ?i + word_of_int p)"
      using bi bp by (rule fadd_exact)
    also have "word_of_int ?i + word_of_int p = (word_of_int (f + int (Suc k) * p) :: 64 word)"
      by (simp add: algebra_simps)
    finally show ?thesis .
  qed
  have "Sample_loop s (float64_of_int64 (word_of_int p)) (float64_of_int64 (word_of_int l))
           (float64_of_int64 (word_of_int ?i)) frames
        = Sample_loop s (float64_of_int64 (word_of_int p)) (float64_of_int64 (word_of_int l))
           (float64_of_int64 (word_of_int (f + int (Suc k) * p))) (frames @ [g k])"
    using Sample_loop_step [OF 1 2 val [OF kn], of "float64_of_int64 (word_of_int p)" frames]
    unfolding 3 .
  also have "\<dots> = Some (Frames ((frames @ [g k]) @ map g [Suc k..<n]))"
    using kn by (intro Suc.hyps(1)) (simp_all add: d)
  also have "(frames @ [g k]) @ map g [Suc k..<n] = frames @ map g [k..<n]"
    using kn by (simp add: upt_conv_Cons)
  finally show ?case .
qed

lemma sint_second: "sint (1000000000 :: 64 word) = 1000000000"
  by simp

lemma Sample_exact:
  fixes rate start len :: "64 word" and n :: nat
  assumes r: "0 < sint rate" "sint rate dvd 1000000000"
    and f: "- (2 ^ 52) \<le> sint start" "sint start \<le> 2 ^ 52"
    and t: "- (2 ^ 52) \<le> sint start + sint len" "sint start + sint len \<le> 2 ^ 52"
    and stop: "sint len \<le> int n * (1000000000 div sint rate)"
    and go: "\<And>j. j < n \<Longrightarrow> int j * (1000000000 div sint rate) < sint len"
    and val: "\<And>j. j < n \<Longrightarrow>
                At s (start + word_of_int (int j * (1000000000 div sint rate))) = Inr (g j)"
  shows "Sample s rate start len = Some (Frames (map g [0..<n]))"
proof -
  let ?p = "1000000000 div sint rate"
  have rle: "sint rate \<le> 1000000000" using r(2) by (intro zdvd_imp_le) simp_all
  have p: "0 < ?p" "?p \<le> 1000000000"
    using r(1) rle zdiv_mono2 [of 1000000000 1 "sint rate"]
    by (simp_all add: pos_imp_zdiv_pos_iff)
  have step: "fdiv (float64_of_int64 1000000000) (float64_of_int64 rate)
              = float64_of_int64 (word_of_int ?p)"
    using fdiv_exact [of 1000000000 rate] r by (simp only: sint_second) simp
  have lim: "start + len = word_of_int (sint start + sint len)"
    by simp
  have i0: "start = word_of_int (sint start + int 0 * ?p)"
    by simp
  have val': "At s (word_of_int (sint start + int j * ?p)) = Inr (g j)" if "j < n" for j
    using val [OF that] by simp
  have "Sample s rate start len =
        Sample_loop s (float64_of_int64 (word_of_int ?p))
          (float64_of_int64 (word_of_int (sint start + sint len)))
          (float64_of_int64 (word_of_int (sint start + int 0 * ?p))) []"
    unfolding Sample_def step by (simp only: lim i0 [symmetric])
  also have "\<dots> = Some (Frames ([] @ map g [0..<n]))"
  proof (rule Sample_loop_exact [OF p f t(2,1) _ _ val'])
    show "sint start + sint len \<le> sint start + int n * ?p" using stop by simp
    show "sint start + int j * ?p < sint start + sint len" if "j < n" for j
      using go [OF that] by simp
  qed simp_all
  finally show ?thesis by simp
qed

text \<open>The number of rounds of the loop: the least \<open>n\<close> with \<open>n * p \<ge> len\<close>.\<close>

lemma ceiling_rounds:
  fixes len r :: int
  assumes r: "0 < r" "r dvd 1000000000" and len: "0 \<le> len"
  defines "n \<equiv> nat \<lceil>rat_of_int (len * r) / 1000000000\<rceil>"
  shows "len \<le> int n * (1000000000 div r)"
    and "\<And>j. j < n \<Longrightarrow> int j * (1000000000 div r) < len"
proof -
  let ?p = "1000000000 div r"
  have rp: "r * ?p = 1000000000" using r(2) by simp
  have ppos: "0 < ?p" using r rp by (metis zero_less_mult_pos zero_less_numeral)
  have x: "rat_of_int (len * r) / 1000000000 = rat_of_int len / rat_of_int ?p"
  proof -
    have "rat_of_int (len * r) / 1000000000 = rat_of_int (len * r) / rat_of_int (r * ?p)"
      by (simp only: rp)
    also have "\<dots> = rat_of_int len / rat_of_int ?p" using r(1) by simp
    finally show ?thesis .
  qed
  have nonneg: "0 \<le> rat_of_int len / rat_of_int ?p" using len ppos by simp
  then have n: "int n = \<lceil>rat_of_int len / rat_of_int ?p\<rceil>"
    unfolding n_def x by simp
  have "rat_of_int len / rat_of_int ?p \<le> of_int (int n)"
    unfolding n by (rule le_of_int_ceiling)
  then have "rat_of_int len \<le> rat_of_int (int n * ?p)"
    using ppos by (simp add: pos_divide_le_eq)
  then show "len \<le> int n * ?p" by (simp only: of_int_le_iff)
  show "int j * ?p < len" if "j < n" for j
  proof -
    from that have "int j < \<lceil>rat_of_int len / rat_of_int ?p\<rceil>" unfolding n [symmetric] by simp
    then have "rat_of_int (int j) < rat_of_int len / rat_of_int ?p" by (simp only: less_ceiling_iff)
    then have "rat_of_int (int j * ?p) < rat_of_int len"
      using ppos by (simp add: pos_less_divide_eq)
    then show ?thesis by (simp only: of_int_less_iff)
  qed
qed

section \<open>Sample: the claims\<close>

lemma Sample_empty_window:
  fixes rate start len :: "64 word"
  assumes f: "- (2 ^ 52) \<le> sint start" "sint start \<le> 2 ^ 52"
    and t: "- (2 ^ 52) \<le> sint start + sint len" "sint start + sint len \<le> 2 ^ 52"
    and len: "sint len \<le> 0"
  shows "Sample s rate start len = Some (Frames [])"
proof -
  have s: "sint (start + len) = sint start + sint len"
    using f t by (simp add: sint_word_add signed_take_bit_int_eq_self)
  have b1: "\<bar>sint start\<bar> < 2 ^ 53" using f by simp
  have b2: "\<bar>sint (start + len)\<bar> < 2 ^ 53" unfolding s using t by simp
  have "\<not> flt (float64_of_int64 start) (float64_of_int64 (start + len))"
    unfolding flt_exact [OF b1 b2] s using len by simp
  then show ?thesis unfolding Sample_def by (rule Sample_loop_exit)
qed

lemma Sample_zero_rate:
  fixes start len :: "64 word"
  assumes f: "- (2 ^ 52) \<le> sint start" "sint start \<le> 2 ^ 52"
    and t: "sint start + sint len \<le> 2 ^ 52"
    and len: "0 < sint len"
    and val: "At s start = Inr v"
  shows "Sample s 0 start len = Some (Frames [v])"
proof -
  have s: "sint (start + len) = sint start + sint len"
    using f t len by (simp add: sint_word_add signed_take_bit_int_eq_self)
  have b1: "\<bar>sint start\<bar> < 2 ^ 53" using f by simp
  have b2: "\<bar>sint (start + len)\<bar> < 2 ^ 53" unfolding s using f t len by simp
  note L = float64_of_int64_exact [OF b2] and S = float64_of_int64_exact [OF b1]
  have step: "fdiv (float64_of_int64 1000000000) (float64_of_int64 0) = mk_inf False"
    by (rule fdiv_by_zero) simp_all
  have 1: "flt (float64_of_int64 start) (float64_of_int64 (start + len))"
    unfolding flt_exact [OF b1 b2] s using len by simp
  have 2: "int64_of_float64 (float64_of_int64 start) = Some start"
    using b1 by (rule int64_of_float64_exact)
  have 3: "fadd (float64_of_int64 start) (mk_inf False) = mk_inf False"
    by (simp add: fadd_def S mk_inf_props)
  have 4: "\<not> flt (mk_inf False) (float64_of_int64 (start + len))"
    by (simp add: flt_def L mk_inf_props mk_inf_fields)
  have "Sample s 0 start len =
        Sample_loop s (mk_inf False) (float64_of_int64 (start + len)) (float64_of_int64 start) []"
    unfolding Sample_def step ..
  also have "\<dots> = Sample_loop s (mk_inf False) (float64_of_int64 (start + len))
                      (fadd (float64_of_int64 start) (mk_inf False)) ([] @ [v])"
    using 1 2 val by (rule Sample_loop_step)
  also have "\<dots> = Some (Frames ([] @ [v]))"
    unfolding 3 using 4 by (rule Sample_loop_exit)
  finally show ?thesis by simp
qed

subsection \<open>A window in which the accumulated time drifts\<close>

text \<open>
  Rate 6 over one second. The period \<open>10^9 / 6\<close> is not a binary64; the loop adds its
  rounded value, and after six additions the loop variable is \<open>999999999.9999999\<close>, still below
  the limit: a seventh sample is taken, at 999999999 ns. Each lemma is one operation of the
  run, checked against its rounding certificate.
\<close>

lemma drift_step:
  "fdiv (float64_of_int64 1000000000) (float64_of_int64 6) = Float64frombits 4729868414444983637"
proof -
  have a: "\<bar>sint (1000000000 :: 64 word)\<bar> < 2 ^ 53" and b: "\<bar>sint (6 :: 64 word)\<bar> < 2 ^ 53"
    by simp_all
  note A = float64_of_int64_exact [OF a] and B = float64_of_int64_exact [OF b]
  have "fdiv (float64_of_int64 1000000000) (float64_of_int64 6)
        = round_to_float64 False (1000000000 / 6)"
    by (simp add: fdiv_def A B)
  also have "\<dots> = Float64frombits (word_of_int ((if False then 2 ^ 63 else 0)
                + ((27 + 1022) * 2 ^ 52 + 5592405333333333)))"
    by (rule round_to_float64_eval [where m = 5592405333333333]) (simp_all add: power_int_minus)
  finally show ?thesis by simp
qed

lemma drift_limit:
  "float64_of_int64 1000000000 = Float64frombits 4741671816366391296"
proof -
  have "float64_of_int64 1000000000 = round_to_float64 False 1000000000"
    by (simp add: float64_of_int64_def)
  also have "\<dots> = Float64frombits (word_of_int ((if False then 2 ^ 63 else 0)
                + ((29 + 1022) * 2 ^ 52 + 8388608000000000)))"
    by (rule round_to_float64_eval [where m = 8388608000000000]) (simp_all add: power_int_minus)
  finally show ?thesis by simp
qed

lemma drift_add_0:
  "fadd (Float64frombits 0) (Float64frombits 4729868414444983637) = Float64frombits 4729868414444983637"
proof -
  have "fadd (Float64frombits 0) (Float64frombits 4729868414444983637)
        = round_to_float64 False (5592405333333333 / 33554432)"
    by (simp add: fadd_def is_NaN_def is_Inf_def is_zero_def valof_def f_sign_def f_exp_def f_frac_def
        power_int_minus)
  also have "\<dots> = Float64frombits (word_of_int ((if False then 2 ^ 63 else 0)
                + ((27 + 1022) * 2 ^ 52 + 5592405333333333)))"
    by (rule round_to_float64_eval [where m = 5592405333333333]) (simp_all add: power_int_minus)
  finally show ?thesis by simp
qed

lemma drift_add_1:
  "fadd (Float64frombits 4729868414444983637) (Float64frombits 4729868414444983637) = Float64frombits 4734372014072354133"
proof -
  have "fadd (Float64frombits 4729868414444983637) (Float64frombits 4729868414444983637)
        = round_to_float64 False (5592405333333333 / 16777216)"
    by (simp add: fadd_def is_NaN_def is_Inf_def is_zero_def valof_def f_sign_def f_exp_def f_frac_def
        power_int_minus)
  also have "\<dots> = Float64frombits (word_of_int ((if False then 2 ^ 63 else 0)
                + ((28 + 1022) * 2 ^ 52 + 5592405333333333)))"
    by (rule round_to_float64_eval [where m = 5592405333333333]) (simp_all add: power_int_minus)
  finally show ?thesis by simp
qed

lemma drift_add_2:
  "fadd (Float64frombits 4734372014072354133) (Float64frombits 4729868414444983637) = Float64frombits 4737168216739020800"
proof -
  have "fadd (Float64frombits 4734372014072354133) (Float64frombits 4729868414444983637)
        = round_to_float64 False (16777215999999999 / 33554432)"
    by (simp add: fadd_def is_NaN_def is_Inf_def is_zero_def valof_def f_sign_def f_exp_def f_frac_def
        power_int_minus)
  also have "\<dots> = Float64frombits (word_of_int ((if False then 2 ^ 63 else 0)
                + ((28 + 1022) * 2 ^ 52 + 8388608000000000)))"
    by (rule round_to_float64_eval [where m = 8388607999999999]) (simp_all add: power_int_minus)
  finally show ?thesis by simp
qed

lemma drift_add_3:
  "fadd (Float64frombits 4737168216739020800) (Float64frombits 4729868414444983637) = Float64frombits 4738875613699724629"
proof -
  have "fadd (Float64frombits 4737168216739020800) (Float64frombits 4729868414444983637)
        = round_to_float64 False (22369621333333333 / 33554432)"
    by (simp add: fadd_def is_NaN_def is_Inf_def is_zero_def valof_def f_sign_def f_exp_def f_frac_def
        power_int_minus)
  also have "\<dots> = Float64frombits (word_of_int ((if False then 2 ^ 63 else 0)
                + ((29 + 1022) * 2 ^ 52 + 5592405333333333)))"
    by (rule round_to_float64_eval [where m = 5592405333333333]) (simp_all add: power_int_minus)
  finally show ?thesis by simp
qed

lemma drift_add_4:
  "fadd (Float64frombits 4738875613699724629) (Float64frombits 4729868414444983637) = Float64frombits 4740273715033057962"
proof -
  have "fadd (Float64frombits 4738875613699724629) (Float64frombits 4729868414444983637)
        = round_to_float64 False (27962026666666665 / 33554432)"
    by (simp add: fadd_def is_NaN_def is_Inf_def is_zero_def valof_def f_sign_def f_exp_def f_frac_def
        power_int_minus)
  also have "\<dots> = Float64frombits (word_of_int ((if False then 2 ^ 63 else 0)
                + ((29 + 1022) * 2 ^ 52 + 6990506666666666)))"
    by (rule round_to_float64_eval [where m = 6990506666666666]) (simp_all add: power_int_minus)
  finally show ?thesis by simp
qed

lemma drift_add_5:
  "fadd (Float64frombits 4740273715033057962) (Float64frombits 4729868414444983637) = Float64frombits 4741671816366391295"
proof -
  have "fadd (Float64frombits 4740273715033057962) (Float64frombits 4729868414444983637)
        = round_to_float64 False (33554431999999997 / 33554432)"
    by (simp add: fadd_def is_NaN_def is_Inf_def is_zero_def valof_def f_sign_def f_exp_def f_frac_def
        power_int_minus)
  also have "\<dots> = Float64frombits (word_of_int ((if False then 2 ^ 63 else 0)
                + ((29 + 1022) * 2 ^ 52 + 8388607999999999)))"
    by (rule round_to_float64_eval [where m = 8388607999999999]) (simp_all add: power_int_minus)
  finally show ?thesis by simp
qed

lemma drift_add_6:
  "fadd (Float64frombits 4741671816366391295) (Float64frombits 4729868414444983637) = Float64frombits 4742680162660428458"
proof -
  have "fadd (Float64frombits 4741671816366391295) (Float64frombits 4729868414444983637)
        = round_to_float64 False (39146837333333329 / 33554432)"
    by (simp add: fadd_def is_NaN_def is_Inf_def is_zero_def valof_def f_sign_def f_exp_def f_frac_def
        power_int_minus)
  also have "\<dots> = Float64frombits (word_of_int ((if False then 2 ^ 63 else 0)
                + ((30 + 1022) * 2 ^ 52 + 4893354666666666)))"
    by (rule round_to_float64_eval [where m = 4893354666666666]) (simp_all add: power_int_minus)
  finally show ?thesis by simp
qed

lemma drift_lt_0:
  "flt (Float64frombits 0) (Float64frombits 4741671816366391296)"
  by (simp add: flt_def is_NaN_def is_Inf_def valof_def f_sign_def f_exp_def f_frac_def
      power_int_minus)

lemma drift_lt_1:
  "flt (Float64frombits 4729868414444983637) (Float64frombits 4741671816366391296)"
  by (simp add: flt_def is_NaN_def is_Inf_def valof_def f_sign_def f_exp_def f_frac_def
      power_int_minus)

lemma drift_lt_2:
  "flt (Float64frombits 4734372014072354133) (Float64frombits 4741671816366391296)"
  by (simp add: flt_def is_NaN_def is_Inf_def valof_def f_sign_def f_exp_def f_frac_def
      power_int_minus)

lemma drift_lt_3:
  "flt (Float64frombits 4737168216739020800) (Float64frombits 4741671816366391296)"
  by (simp add: flt_def is_NaN_def is_Inf_def valof_def f_sign_def f_exp_def f_frac_def
      power_int_minus)

lemma drift_lt_4:
  "flt (Float64frombits 4738875613699724629) (Float64frombits 4741671816366391296)"
  by (simp add: flt_def is_NaN_def is_Inf_def valof_def f_sign_def f_exp_def f_frac_def
      power_int_minus)

lemma drift_lt_5:
  "flt (Float64frombits 4740273715033057962) (Float64frombits 4741671816366391296)"
  by (simp add: flt_def is_NaN_def is_Inf_def valof_def f_sign_def f_exp_def f_frac_def
      power_int_minus)

lemma drift_lt_6:
  "flt (Float64frombits 4741671816366391295) (Float64frombits 4741671816366391296)"
  by (simp add: flt_def is_NaN_def is_Inf_def valof_def f_sign_def f_exp_def f_frac_def
      power_int_minus)

lemma drift_lt_7:
  "\<not> flt (Float64frombits 4742680162660428458) (Float64frombits 4741671816366391296)"
  by (simp add: flt_def is_NaN_def is_Inf_def valof_def f_sign_def f_exp_def f_frac_def
      power_int_minus)

lemma drift_time_0:
  "int64_of_float64 (Float64frombits 0) = Some 0"
proof -
  have v: "valof (Float64frombits 0) = 0"
    by (simp add: valof_def f_sign_def f_exp_def f_frac_def power_int_minus)
  have fl: "\<lfloor>0 :: rat\<rfloor> = 0"
    by (simp add: floor_eq_iff)
  have fin: "is_finite (Float64frombits 0)"
    by (simp add: is_finite_def f_exp_def)
  show ?thesis
    unfolding int64_of_float64_def Let_def v fl using fin by simp
qed

lemma drift_time_1:
  "int64_of_float64 (Float64frombits 4729868414444983637) = Some 166666666"
proof -
  have v: "valof (Float64frombits 4729868414444983637) = 5592405333333333 / 33554432"
    by (simp add: valof_def f_sign_def f_exp_def f_frac_def power_int_minus)
  have fl: "\<lfloor>5592405333333333 / 33554432 :: rat\<rfloor> = 166666666"
    by (simp add: floor_eq_iff)
  have fin: "is_finite (Float64frombits 4729868414444983637)"
    by (simp add: is_finite_def f_exp_def)
  show ?thesis
    unfolding int64_of_float64_def Let_def v fl using fin by simp
qed

lemma drift_time_2:
  "int64_of_float64 (Float64frombits 4734372014072354133) = Some 333333333"
proof -
  have v: "valof (Float64frombits 4734372014072354133) = 5592405333333333 / 16777216"
    by (simp add: valof_def f_sign_def f_exp_def f_frac_def power_int_minus)
  have fl: "\<lfloor>5592405333333333 / 16777216 :: rat\<rfloor> = 333333333"
    by (simp add: floor_eq_iff)
  have fin: "is_finite (Float64frombits 4734372014072354133)"
    by (simp add: is_finite_def f_exp_def)
  show ?thesis
    unfolding int64_of_float64_def Let_def v fl using fin by simp
qed

lemma drift_time_3:
  "int64_of_float64 (Float64frombits 4737168216739020800) = Some 500000000"
proof -
  have v: "valof (Float64frombits 4737168216739020800) = 500000000"
    by (simp add: valof_def f_sign_def f_exp_def f_frac_def power_int_minus)
  have fl: "\<lfloor>500000000 :: rat\<rfloor> = 500000000"
    by (simp add: floor_eq_iff)
  have fin: "is_finite (Float64frombits 4737168216739020800)"
    by (simp add: is_finite_def f_exp_def)
  show ?thesis
    unfolding int64_of_float64_def Let_def v fl using fin by simp
qed

lemma drift_time_4:
  "int64_of_float64 (Float64frombits 4738875613699724629) = Some 666666666"
proof -
  have v: "valof (Float64frombits 4738875613699724629) = 5592405333333333 / 8388608"
    by (simp add: valof_def f_sign_def f_exp_def f_frac_def power_int_minus)
  have fl: "\<lfloor>5592405333333333 / 8388608 :: rat\<rfloor> = 666666666"
    by (simp add: floor_eq_iff)
  have fin: "is_finite (Float64frombits 4738875613699724629)"
    by (simp add: is_finite_def f_exp_def)
  show ?thesis
    unfolding int64_of_float64_def Let_def v fl using fin by simp
qed

lemma drift_time_5:
  "int64_of_float64 (Float64frombits 4740273715033057962) = Some 833333333"
proof -
  have v: "valof (Float64frombits 4740273715033057962) = 3495253333333333 / 4194304"
    by (simp add: valof_def f_sign_def f_exp_def f_frac_def power_int_minus)
  have fl: "\<lfloor>3495253333333333 / 4194304 :: rat\<rfloor> = 833333333"
    by (simp add: floor_eq_iff)
  have fin: "is_finite (Float64frombits 4740273715033057962)"
    by (simp add: is_finite_def f_exp_def)
  show ?thesis
    unfolding int64_of_float64_def Let_def v fl using fin by simp
qed

lemma drift_time_6:
  "int64_of_float64 (Float64frombits 4741671816366391295) = Some 999999999"
proof -
  have v: "valof (Float64frombits 4741671816366391295) = 8388607999999999 / 8388608"
    by (simp add: valof_def f_sign_def f_exp_def f_frac_def power_int_minus)
  have fl: "\<lfloor>8388607999999999 / 8388608 :: rat\<rfloor> = 999999999"
    by (simp add: floor_eq_iff)
  have fin: "is_finite (Float64frombits 4741671816366391295)"
    by (simp add: is_finite_def f_exp_def)
  show ?thesis
    unfolding int64_of_float64_def Let_def v fl using fin by simp
qed

lemma Sample_drift:
  "Sample (\<lambda>x. Inr (Float64frombits x)) 6 0 1000000000
     = Some (Frames [Float64frombits 0, Float64frombits 166666666, Float64frombits 333333333, Float64frombits 500000000, Float64frombits 666666666, Float64frombits 833333333, Float64frombits 999999999])"
proof -
  let ?s = "\<lambda>x. Inr (Float64frombits x) :: panic + float64"
  have z: "float64_of_int64 0 = Float64frombits 0"
    by (simp add: float64_of_int64_def mk_zero_def)
  have "Sample ?s 6 0 1000000000
        = Sample_loop ?s (Float64frombits 4729868414444983637) (Float64frombits 4741671816366391296)
            (Float64frombits 0) []"
    unfolding Sample_def drift_step by (simp add: drift_limit z)
  also have "\<dots> = Sample_loop ?s (Float64frombits 4729868414444983637) (Float64frombits 4741671816366391296)
      (Float64frombits 4729868414444983637) [Float64frombits 0]"
    using Sample_loop_step [OF drift_lt_0 drift_time_0, of ?s "Float64frombits 0"
        "Float64frombits 4729868414444983637" "[]"]
    unfolding drift_add_0 by simp
  also have "\<dots> = Sample_loop ?s (Float64frombits 4729868414444983637) (Float64frombits 4741671816366391296)
      (Float64frombits 4734372014072354133) [Float64frombits 0, Float64frombits 166666666]"
    using Sample_loop_step [OF drift_lt_1 drift_time_1, of ?s "Float64frombits 166666666"
        "Float64frombits 4729868414444983637" "[Float64frombits 0]"]
    unfolding drift_add_1 by simp
  also have "\<dots> = Sample_loop ?s (Float64frombits 4729868414444983637) (Float64frombits 4741671816366391296)
      (Float64frombits 4737168216739020800) [Float64frombits 0, Float64frombits 166666666, Float64frombits 333333333]"
    using Sample_loop_step [OF drift_lt_2 drift_time_2, of ?s "Float64frombits 333333333"
        "Float64frombits 4729868414444983637" "[Float64frombits 0, Float64frombits 166666666]"]
    unfolding drift_add_2 by simp
  also have "\<dots> = Sample_loop ?s (Float64frombits 4729868414444983637) (Float64frombits 4741671816366391296)
      (Float64frombits 4738875613699724629) [Float64frombits 0, Float64frombits 166666666, Float64frombits 333333333, Float64frombits 500000000]"
    using Sample_loop_step [OF drift_lt_3 drift_time_3, of ?s "Float64frombits 500000000"
        "Float64frombits 4729868414444983637" "[Float64frombits 0, Float64frombits 166666666, Float64frombits 333333333]"]
    unfolding drift_add_3 by simp
  also have "\<dots> = Sample_loop ?s (Float64frombits 4729868414444983637) (Float64frombits 4741671816366391296)
      (Float64frombits 4740273715033057962) [Float64frombits 0, Float64frombits 166666666, Float64frombits 333333333, Float64frombits 500000000, Float64frombits 666666666]"
    using Sample_loop_step [OF drift_lt_4 drift_time_4, of ?s "Float64frombits 666666666"
        "Float64frombits 4729868414444983637" "[Float64frombits 0, Float64frombits 166666666, Float64frombits 333333333, Float64frombits 500000000]"]
    unfolding drift_add_4 by simp
  also have "\<dots> = Sample_loop ?s (Float64frombits 4729868414444983637) (Float64frombits 4741671816366391296)
      (Float64frombits 4741671816366391295) [Float64frombits 0, Float64frombits 166666666, Float64frombits 333333333, Float64frombits 500000000, Float64frombits 666666666, Float64frombits 833333333]"
    using Sample_loop_step [OF drift_lt_5 drift_time_5, of ?s "Float64frombits 833333333"
        "Float64frombits 4729868414444983637" "[Float64frombits 0, Float64frombits 166666666, Float64frombits 333333333, Float64frombits 500000000, Float64frombits 666666666]"]
    unfolding drift_add_5 by simp
  also have "\<dots> = Sample_loop ?s (Float64frombits 4729868414444983637) (Float64frombits 4741671816366391296)
      (Float64frombits 4742680162660428458) [Float64frombits 0, Float64frombits 166666666, Float64frombits 333333333, Float64frombits 500000000, Float64frombits 666666666, Float64frombits 833333333, Float64frombits 999999999]"
    using Sample_loop_step [OF drift_lt_6 drift_time_6, of ?s "Float64frombits 999999999"
        "Float64frombits 4729868414444983637" "[Float64frombits 0, Float64frombits 166666666, Float64frombits 333333333, Float64frombits 500000000, Float64frombits 666666666, Float64frombits 833333333]"]
    unfolding drift_add_6 by simp
  also have "\<dots> = Some (Frames [Float64frombits 0, Float64frombits 166666666, Float64frombits 333333333, Float64frombits 500000000, Float64frombits 666666666, Float64frombits 833333333, Float64frombits 999999999])"
    using drift_lt_7 by (rule Sample_loop_exit)
  finally show ?thesis .
qed

text \<open>
  Claim C5, as stated, fails, in two ways. The loop runs while \<open>i * period < length\<close>, so a
  window that is not a whole number of periods gets one sample more than
  \<open>\<lfloor>length * rate / 1 second\<rfloor>\<close>: with rate 1 and a window of 1 ns the call returns one
  sample (the signal at time 0) where the formula gives none. And the loop variable is a
  \<^verbatim>\<open>float64\<close> sum of rounded periods: with rate 6 and a window of one second the call returns
  seven samples, the last at 999999999 ns, where the formula gives six.
\<close>

theorem Sample_cardinality_counterexample:
  "Sample (Constant (Float64frombits 0x3FF0000000000000)) 1 0 1
     = Some (Frames [Float64frombits 0x3FF0000000000000])
   \<and> length [Float64frombits 0x3FF0000000000000] = 1
   \<and> \<lfloor>rat_of_int (sint (1 :: Duration) * sint (1 :: 64 word)) / 1000000000\<rfloor> = 0
   \<and> Sample (\<lambda>x. Inr (Float64frombits x)) 6 0 1000000000
     = Some (Frames [Float64frombits 0, Float64frombits 166666666, Float64frombits 333333333,
                     Float64frombits 500000000, Float64frombits 666666666,
                     Float64frombits 833333333, Float64frombits 999999999])
   \<and> \<lfloor>rat_of_int (sint (1000000000 :: Duration) * sint (6 :: 64 word)) / 1000000000\<rfloor> = 6"
proof -
  have "Sample (Constant (Float64frombits 0x3FF0000000000000)) 1 0 1
     = Some (Frames (map (\<lambda>k. Float64frombits 0x3FF0000000000000) [0..<1]))"
    by (rule Sample_exact) (simp_all add: Constant_def)
  moreover have "\<lfloor>rat_of_int (sint (1 :: Duration) * sint (1 :: 64 word)) / 1000000000\<rfloor> = 0"
    by (simp add: floor_eq_iff)
  moreover have "\<lfloor>rat_of_int (sint (1000000000 :: Duration) * sint (6 :: 64 word)) / 1000000000\<rfloor> = 6"
    by simp
  ultimately show ?thesis using Sample_drift by simp
qed

text \<open>
  Claim C5, amended. For every signal \<open>s\<close>, every positive rate that divides \<open>10^9\<close> (so
  that the period \<open>1 second / rate\<close> is a whole number of nanoseconds) and every window
  length \<open>0 \<le> length \<le> 2^52\<close> ns, \<^verbatim>\<open>Sample(s, rate, 0, length)\<close> returns exactly
  \<open>\<lceil>length * rate / 1 second\<rceil>\<close> samples, the \<open>i\<close>-th being \<open>s\<close> evaluated at time
  \<open>i * (1 second / rate)\<close>, provided \<open>s\<close> returns an amplitude at each of these times.
\<close>

theorem Sample_cardinality:
  fixes rate len :: "64 word"
  assumes "0 <s rate" and "sint rate dvd 1000000000"
    and "0 \<le>s len" and "sint len \<le> 2 ^ 52"
    and "\<And>k. k < nat \<lceil>rat_of_int (sint len * sint rate) / 1000000000\<rceil> \<Longrightarrow>
              At s (word_of_int (int k * (1000000000 div sint rate))) = Inr (g k)"
  shows "Sample s rate 0 len =
         Some (Frames (map g [0..<nat \<lceil>rat_of_int (sint len * sint rate) / 1000000000\<rceil>]))"
proof -
  from assms(1,3) have r: "0 < sint rate" and l: "0 \<le> sint len"
    by (simp_all add: word_sless_alt word_sle_eq)
  note c = ceiling_rounds [OF r assms(2) l]
  show ?thesis
  proof (rule Sample_exact [OF r assms(2)])
    show "sint len \<le> int (nat \<lceil>rat_of_int (sint len * sint rate) / 1000000000\<rceil>)
            * (1000000000 div sint rate)"
      by (rule c(1))
    show "int j * (1000000000 div sint rate) < sint len"
      if "j < nat \<lceil>rat_of_int (sint len * sint rate) / 1000000000\<rceil>" for j
      using that by (rule c(2))
    show "At s (0 + word_of_int (int j * (1000000000 div sint rate))) = Inr (g j)"
      if "j < nat \<lceil>rat_of_int (sint len * sint rate) / 1000000000\<rceil>" for j
      using assms(5) [OF that] by simp
  qed (use l assms(4) in simp_all)
qed

text \<open>
  An instance, the scenario of the specification: rate 8 over half a second gives the four
  samples at 0, 125, 250 and 375 ms; the signal here returns the bits of the time it is
  asked at.
\<close>

theorem Sample_cardinality_witness:
  "(0 :: 64 word) <s 8 \<and> sint (8 :: 64 word) dvd 1000000000
   \<and> (0 :: Duration) \<le>s 500000000 \<and> sint (500000000 :: Duration) \<le> 2 ^ 52
   \<and> nat \<lceil>rat_of_int (sint (500000000 :: Duration) * sint (8 :: 64 word)) / 1000000000\<rceil> = 4
   \<and> Sample (\<lambda>x. Inr (Float64frombits x)) 8 0 500000000
       = Some (Frames [Float64frombits 0, Float64frombits 125000000,
                       Float64frombits 250000000, Float64frombits 375000000])"
proof -
  have h1: "(0 :: 64 word) <s 8" by (simp add: word_sless_alt)
  have h2: "sint (8 :: 64 word) dvd 1000000000" by simp
  have h3: "(0 :: Duration) \<le>s 500000000" by (simp add: word_sle_eq)
  have h4: "sint (500000000 :: Duration) \<le> 2 ^ 52" by simp
  have n: "nat \<lceil>rat_of_int (sint (500000000 :: Duration) * sint (8 :: 64 word)) / 1000000000\<rceil> = 4"
    by simp
  have "Sample (\<lambda>x. Inr (Float64frombits x)) 8 0 500000000
        = Some (Frames (map (\<lambda>k. Float64frombits (word_of_int (int k * (1000000000 div sint (8 :: 64 word)))))
            [0..<nat \<lceil>rat_of_int (sint (500000000 :: Duration) * sint (8 :: 64 word)) / 1000000000\<rceil>]))"
    by (rule Sample_cardinality [OF h1 h2 h3 h4]) simp
  also have "\<dots> = Some (Frames [Float64frombits 0, Float64frombits 125000000,
                       Float64frombits 250000000, Float64frombits 375000000])"
  proof -
    have "[0..<4::nat] = [0, 1, 2, 3]" by (simp add: upt_conv_Cons)
    then show ?thesis unfolding n by simp
  qed
  finally show ?thesis using h1 h2 h3 h4 n by simp
qed

text \<open>
  Claim C4, as stated, fails: \<^verbatim>\<open>Sample\<close> checks none of its parameters. Called with the
  negative starting offset \<open>-1\<close> (rate 1, window 1 ns) it is not rejected: it evaluates the
  signal at time \<open>-1\<close> and returns that sample.
\<close>

theorem Sample_validation_counterexample:
  "(- 1 :: Duration) <s 0
   \<and> Sample (\<lambda>x. Inr (Float64frombits x)) 1 (- 1) 1 = Some (Frames [Float64frombits (- 1)])"
proof -
  have "Sample (\<lambda>x. Inr (Float64frombits x)) 1 (- 1) 1
     = Some (Frames (map (\<lambda>k. Float64frombits (- 1)) [0..<1]))"
    by (rule Sample_exact) simp_all
  then show ?thesis by (simp add: word_sless_alt)
qed

text \<open>
  Claim C4, amended. \<^verbatim>\<open>Sample\<close> validates none of its parameters and rejects no call. For
  offsets and window ends within \<open>2^52\<close> ns: with a non-positive window length it returns the
  empty sequence without evaluating the signal, whatever the rate (positive, zero or
  negative) and whatever the sign of the starting offset; with rate 0 and a positive window
  length it evaluates the signal once, at the starting offset (negative or not), and returns
  that one sample.
\<close>

theorem Sample_no_validation:
  fixes rate start len :: "64 word"
  assumes "- (2 ^ 52) \<le> sint start" and "sint start \<le> 2 ^ 52"
    and "- (2 ^ 52) \<le> sint start + sint len" and "sint start + sint len \<le> 2 ^ 52"
  shows "(sint len \<le> 0 \<longrightarrow> Sample s rate start len = Some (Frames []))
       \<and> (rate = 0 \<and> 0 < sint len \<and> At s start = Inr v
            \<longrightarrow> Sample s rate start len = Some (Frames [v]))"
  using Sample_empty_window [OF assms, of s rate] Sample_zero_rate [OF assms(1,2,4), of s v]
  by blast

theorem Sample_no_validation_witness:
  "Sample (\<lambda>x. Inr (Float64frombits x)) (- 5) (- 3) (- 2) = Some (Frames [])
   \<and> Sample (\<lambda>x. Inr (Float64frombits x)) 0 (- 3) 10 = Some (Frames [Float64frombits (- 3)])"
proof -
  have a: "- (2 ^ 52) \<le> sint (- 3 :: Duration)" "sint (- 3 :: Duration) \<le> 2 ^ 52"
    by simp_all
  have b: "- (2 ^ 52) \<le> sint (- 3 :: Duration) + sint (- 2 :: Duration)"
    "sint (- 3 :: Duration) + sint (- 2 :: Duration) \<le> 2 ^ 52"
    by simp_all
  have c: "- (2 ^ 52) \<le> sint (- 3 :: Duration) + sint (10 :: Duration)"
    "sint (- 3 :: Duration) + sint (10 :: Duration) \<le> 2 ^ 52"
    by simp_all
  from Sample_no_validation [OF a b, of "\<lambda>x. Inr (Float64frombits x)" "- 5" "Float64frombits 0"]
  have 1: "Sample (\<lambda>x. Inr (Float64frombits x)) (- 5) (- 3) (- 2) = Some (Frames [])"
    by simp
  from Sample_no_validation [OF a c, of "\<lambda>x. Inr (Float64frombits x)" 0 "Float64frombits (- 3)"]
  have 2: "Sample (\<lambda>x. Inr (Float64frombits x)) 0 (- 3) 10 = Some (Frames [Float64frombits (- 3)])"
    by simp
  from 1 2 show ?thesis by simp
qed

section \<open>Combine and Amplify: the claims\<close>

lemma Combine_empty: "Combine [] t = Inr qNaN"
proof -
  have "float64_of_int64 (word_of_nat (length ([] :: Signal list))) = mk_zero False"
    by (simp add: float64_of_int64_def)
  then show ?thesis
    by (simp add: Combine_def fdiv_def mk_zero_props)
qed

lemma fmul_zero_right:
  assumes "is_finite v"
  shows "fmul v (mk_zero False) = mk_zero (f_sign v)"
proof -
  from assms have "\<not> is_NaN v" "\<not> is_Inf v"
    by (simp_all add: is_finite_def is_NaN_def is_Inf_def)
  then show ?thesis
    by (simp add: fmul_def mk_zero_props mk_zero_fields)
qed

text \<open>
  Claim C2, as stated, fails: mixing no signals is not an error. The closure adds nothing
  to \<open>y = 0\<close> and returns \<open>0 / float64(0)\<close>, which is a NaN; nothing panics.
\<close>

theorem Combine_empty_counterexample:
  "(case Combine [] 0 of Inl p \<Rightarrow> False | Inr y \<Rightarrow> is_NaN y)"
  by (simp add: Combine_empty qNaN_props)

text \<open>
  Claim C2, amended. \<^verbatim>\<open>Combine\<close> called with an empty list of signals does not fail: the
  signal it returns evaluates, at every time offset, to a NaN (the quotient \<open>0 / 0\<close>),
  silently.
\<close>

theorem Combine_empty_is_NaN:
  "\<exists>y. Combine [] t = Inr y \<and> is_NaN y"
  by (simp add: Combine_empty qNaN_props)

theorem Combine_empty_is_NaN_witness:
  "\<exists>y. Combine [] 44100 = Inr y \<and> is_NaN y"
  by (rule Combine_empty_is_NaN)

text \<open>
  Claim C9, as stated, fails where the carrier's value is not finite: the carrier
  \<^verbatim>\<open>Combine()\<close> of no signals evaluates to a NaN, and a NaN times 0 is a NaN, not 0.
\<close>

theorem Amplify_zero_counterexample:
  "(case Amplify (Combine []) (Constant (mk_zero False)) 0 of
      Inl p \<Rightarrow> False
    | Inr z \<Rightarrow> is_NaN z \<and> \<not> is_zero z)"
  by (simp add: Amplify_def Combine_empty Constant_def fmul_def qNaN_props)

text \<open>
  Claim C9, amended. For every signal \<open>s\<close> and every time offset \<open>t\<close> at which \<open>s\<close> returns a
  finite amplitude (neither a NaN nor an infinity), \<^verbatim>\<open>Amplify(s, Constant(0))\<close> evaluated at
  \<open>t\<close> returns a zero: \<open>+0\<close> or \<open>-0\<close>, of value 0.
\<close>

theorem Amplify_zero:
  assumes "At s t = Inr v" and "is_finite v"
  shows "\<exists>z. Amplify s (Constant (mk_zero False)) t = Inr z \<and> is_zero z \<and> valof z = 0"
proof -
  from assms(1) have "Amplify s (Constant (mk_zero False)) t = Inr (fmul v (mk_zero False))"
    by (simp add: Amplify_def Constant_def)
  with fmul_zero_right [OF assms(2)] show ?thesis
    by (simp add: mk_zero_props)
qed

text \<open>An instance: the carrier of constant value \<open>-1.0\<close>; the product is the negative zero.\<close>

theorem Amplify_zero_witness:
  "At (Constant (Float64frombits 0xBFF0000000000000)) 5 = Inr (Float64frombits 0xBFF0000000000000)
   \<and> is_finite (Float64frombits 0xBFF0000000000000)
   \<and> (\<exists>z. Amplify (Constant (Float64frombits 0xBFF0000000000000)) (Constant (mk_zero False)) 5 = Inr z
          \<and> is_zero z \<and> valof z = 0)"
proof -
  have h1: "At (Constant (Float64frombits 0xBFF0000000000000)) 5 = Inr (Float64frombits 0xBFF0000000000000)"
    by (simp add: Constant_def)
  have h2: "is_finite (Float64frombits 0xBFF0000000000000)"
    by (simp add: is_finite_def f_exp_def)
  from Amplify_zero [OF h1 h2] h1 h2 show ?thesis by blast
qed

end
